theory Spec2Isabelle
  imports Complex_Main
begin

section \<open>JavaScript values\<close>

text \<open>
  The forecast normalizer (\<^verbatim>\<open>frontend/src/utils/normalize.js\<close> and
  \<^verbatim>\<open>frontend/src/utils/extractForecast.js\<close>) works on whatever \<^verbatim>\<open>res.json()\<close>
  delivers, so the embedding starts from a datatype of JSON values extended with
  \<^verbatim>\<open>undefined\<close> (what reading an absent property gives).

  A number is one of the three non-finite doubles or \<open>Fin q\<close> with \<open>q\<close> the rational
  value of a finite double; the two zeros are not told apart. Products and quotients are
  rounded to the nearest double by \<open>fround\<close> below. An object is the list of its own
  properties in enumeration order.
\<close>

datatype jsnum = Fin rat | NaN | PosInf | NegInf

datatype jsval =
    JUndef
  | JNull
  | JBool bool
  | JNum jsnum
  | JStr string
  | JArr "jsval list"
  | JObj "(string \<times> jsval) list"

text \<open>What the code can throw, and running one step after another.\<close>

datatype error = RangeError | TypeError

fun andThen :: "error + 'a \<Rightarrow> ('a \<Rightarrow> error + 'b) \<Rightarrow> error + 'b" where
  "andThen (Inl e) f = Inl e"
| "andThen (Inr x) f = f x"

fun mapE :: "('a \<Rightarrow> error + 'b) \<Rightarrow> 'a list \<Rightarrow> error + 'b list" where
  "mapE f [] = Inr []"
| "mapE f (x # xs) = andThen (f x) (\<lambda>y. andThen (mapE f xs) (\<lambda>ys. Inr (y # ys)))"

text \<open>
  Four built-ins are left to the host, because their result is implementation-defined
  or belongs to a library outside the repository:
  \<^item> \<open>legacyDateParse\<close>: what \<^verbatim>\<open>Date.parse\<close> returns (milliseconds since the epoch,
    \<open>None\<close> for \<^verbatim>\<open>NaN\<close>) on a string outside the part of the ECMAScript date-time
    format that \<open>parseISO\<close> below decides;
  \<^item> \<open>stringToNumber\<close>: the unary \<^verbatim>\<open>+\<close> on a string;
  \<^item> \<open>numberToString\<close>: \<^verbatim>\<open>String(n)\<close> on a number;
  \<^item> \<open>formatMMMD\<close>: \<^verbatim>\<open>dayjs(iso).format("MMM D")\<close>, which depends on the local
    time zone.
\<close>

record host =
  legacyDateParse :: "string \<Rightarrow> int option"
  stringToNumber :: "string \<Rightarrow> jsnum"
  numberToString :: "jsnum \<Rightarrow> string"
  formatMMMD :: "string \<Rightarrow> string"

definition nullish :: "jsval \<Rightarrow> bool" where
  "nullish v = (v = JNull \<or> v = JUndef)"

text \<open>The operator \<^verbatim>\<open>a ?? b\<close>.\<close>

definition nc :: "jsval \<Rightarrow> jsval \<Rightarrow> jsval" where
  "nc a b = (if nullish a then b else a)"

fun truthy :: "jsval \<Rightarrow> bool" where
  "truthy JUndef = False"
| "truthy JNull = False"
| "truthy (JBool b) = b"
| "truthy (JNum (Fin q)) = (q \<noteq> 0)"
| "truthy (JNum NaN) = False"
| "truthy (JNum PosInf) = True"
| "truthy (JNum NegInf) = True"
| "truthy (JStr s) = (s \<noteq> [])"
| "truthy (JArr xs) = True"
| "truthy (JObj kvs) = True"

text \<open>The operator \<^verbatim>\<open>a || b\<close>.\<close>

definition lor :: "jsval \<Rightarrow> jsval \<Rightarrow> jsval" where
  "lor a b = (if truthy a then a else b)"

text \<open>
  Reading a property, \<^verbatim>\<open>o.k\<close>, \<^verbatim>\<open>o[k]\<close> and \<^verbatim>\<open>o?.k\<close>. Every read without
  \<^verbatim>\<open>?.\<close> in the two files is on a value already known not to be \<^verbatim>\<open>null\<close> or
  \<^verbatim>\<open>undefined\<close>, so no read throws. None of the property names the code reads is
  defined on the prototype of objects, arrays, strings, numbers or booleans, where the
  result is \<^verbatim>\<open>undefined\<close>.
\<close>

fun getProp :: "jsval \<Rightarrow> string \<Rightarrow> jsval" where
  "getProp (JObj kvs) k = (case map_of kvs k of Some v \<Rightarrow> v | None \<Rightarrow> JUndef)"
| "getProp v k = JUndef"

text \<open>Reading an index, \<^verbatim>\<open>xs[i]\<close>: \<^verbatim>\<open>undefined\<close> out of range.\<close>

definition idx :: "jsval list \<Rightarrow> nat \<Rightarrow> jsval" where
  "idx xs i = (if i < length xs then xs ! i else JUndef)"

fun isArray :: "jsval \<Rightarrow> bool" where
  "isArray (JArr xs) = True"
| "isArray v = False"

fun elems :: "jsval \<Rightarrow> jsval list" where
  "elems (JArr xs) = xs"
| "elems v = []"

fun joinComma :: "string list \<Rightarrow> string" where
  "joinComma [] = []"
| "joinComma [s] = s"
| "joinComma (s # t # ss) = s @ '','' @ joinComma (t # ss)"

text \<open>
  \<^verbatim>\<open>String(v)\<close>, also what a template literal and the unary \<^verbatim>\<open>+\<close> do to a value
  first. An object is converted by its \<^verbatim>\<open>toString\<close>: the inherited one gives
  \<^verbatim>\<open>[object Object]\<close>, but an own property \<^verbatim>\<open>toString\<close>, which in a JSON value is
  never a function, hides it; \<^verbatim>\<open>valueOf\<close> returns the object itself, and the
  conversion throws a \<^verbatim>\<open>TypeError\<close>. An array joins the strings of its elements,
  \<^verbatim>\<open>null\<close> and \<^verbatim>\<open>undefined\<close> counting as empty.
\<close>

fun toStringJS :: "host \<Rightarrow> jsval \<Rightarrow> error + string"
  and toStrings :: "host \<Rightarrow> jsval list \<Rightarrow> error + string list" where
  "toStringJS h JUndef = Inr ''undefined''"
| "toStringJS h JNull = Inr ''null''"
| "toStringJS h (JBool b) = Inr (if b then ''true'' else ''false'')"
| "toStringJS h (JNum n) = Inr (numberToString h n)"
| "toStringJS h (JStr s) = Inr s"
| "toStringJS h (JArr xs) = andThen (toStrings h xs) (\<lambda>ss. Inr (joinComma ss))"
| "toStringJS h (JObj kvs) =
     (if ''toString'' \<in> fst ` set kvs then Inl TypeError else Inr ''[object Object]'')"
| "toStrings h [] = Inr []"
| "toStrings h (x # xs) =
     andThen (if x = JNull \<or> x = JUndef then Inr [] else toStringJS h x)
       (\<lambda>s. andThen (toStrings h xs) (\<lambda>ss. Inr (s # ss)))"

section \<open>Doubles\<close>

text \<open>
  \<open>fround q\<close> is the double nearest to the rational \<open>q\<close>, a tie going to the even
  significand: 53 bits, the exponent of the last place no less than \<open>-1074\<close>, and
  \<^verbatim>\<open>Infinity\<close> from \<open>2^1024\<close> on.
\<close>

definition pow2 :: "int \<Rightarrow> rat" where
  "pow2 e = (if 0 \<le> e then 2 ^ nat e else 1 / 2 ^ nat (- e))"

text \<open>Squaring, for computing a power of two in few steps.\<close>

definition sq :: "rat \<Rightarrow> rat" where
  "sq x = x * x"

function bitLength :: "int \<Rightarrow> int" where
  "bitLength n = (if n \<le> 0 then 0 else 1 + bitLength (n div 2))"
  by pat_completeness auto
termination
  by (relation "measure nat") auto

declare bitLength.simps [simp del]

text \<open>
  For \<open>a > 0\<close>, the \<open>e\<close> with \<open>2^e \<le> a < 2^(e+1)\<close>: the difference of the bit lengths
  of numerator and denominator, or one less.
\<close>

definition floorLog2At :: "int \<Rightarrow> rat \<Rightarrow> int" where
  "floorLog2At e0 a = (if pow2 e0 \<le> a then e0 else e0 - 1)"

definition floorLog2 :: "rat \<Rightarrow> int" where
  "floorLog2 a =
     floorLog2At (bitLength (fst (quotient_of a)) - bitLength (snd (quotient_of a))) a"

text \<open>The integer nearest to \<open>s\<close>, the even one of two; \<open>f\<close> is \<open>s\<close> rounded down.\<close>

definition halfEven :: "int \<Rightarrow> rat \<Rightarrow> int" where
  "halfEven f s =
     (if s - of_int f < 1 / 2 then f else if 1 / 2 < s - of_int f then f + 1
      else if even f then f else f + 1)"

definition roundHalfEven :: "rat \<Rightarrow> int" where
  "roundHalfEven s = halfEven \<lfloor>s\<rfloor> s"

text \<open>\<open>a\<close> rounded to a multiple of \<open>2^u\<close>.\<close>

definition scaled :: "int \<Rightarrow> rat \<Rightarrow> rat" where
  "scaled u a = of_int (roundHalfEven (a / pow2 u)) * pow2 u"

definition signed :: "bool \<Rightarrow> rat \<Rightarrow> jsnum" where
  "signed neg r =
     (if pow2 1024 \<le> r then (if neg then NegInf else PosInf)
      else Fin (if neg then - r else r))"

definition fround :: "rat \<Rightarrow> jsnum" where
  "fround q =
     (if q = 0 then Fin 0
      else signed (q < 0) (scaled (max (floorLog2 \<bar>q\<bar> - 52) (- 1074)) \<bar>q\<bar>))"

text \<open>The double a decimal literal denotes, for writing examples.\<close>

definition dbl :: "rat \<Rightarrow> rat" where
  "dbl q = (case fround q of Fin r \<Rightarrow> r | _ \<Rightarrow> 0)"

text \<open>\<^verbatim>\<open>Math.round\<close>: the nearest integer, a half going up; it is exact.\<close>

definition mathRound :: "rat \<Rightarrow> int" where
  "mathRound x = \<lfloor>x + 1 / 2\<rfloor>"

text \<open>\<^verbatim>\<open>Math.max(lo, n)\<close> and \<^verbatim>\<open>Math.min(hi, n)\<close> with a finite bound.\<close>

fun mathMax :: "rat \<Rightarrow> jsnum \<Rightarrow> jsnum" where
  "mathMax lo (Fin q) = Fin (max lo q)"
| "mathMax lo PosInf = PosInf"
| "mathMax lo NegInf = Fin lo"
| "mathMax lo NaN = NaN"

fun mathMin :: "rat \<Rightarrow> jsnum \<Rightarrow> jsnum" where
  "mathMin hi (Fin q) = Fin (min hi q)"
| "mathMin hi PosInf = Fin hi"
| "mathMin hi NegInf = NegInf"
| "mathMin hi NaN = NaN"

text \<open>Decimal digits of an array index, as a template literal prints it.\<close>

definition digit :: "nat \<Rightarrow> char" where
  "digit n = char_of (48 + n)"

fun decimal :: "nat \<Rightarrow> string" where
  "decimal n = (if n < 10 then [digit n] else decimal (n div 10) @ [digit (n mod 10)])"

declare decimal.simps [simp del]

section \<open>Dates\<close>

text \<open>
  A \<^verbatim>\<open>Date\<close> holds a time value: milliseconds since 1970-01-01T00:00:00Z, at most
  \<open>8.64e15\<close> in absolute value, or \<^verbatim>\<open>NaN\<close> (here \<open>None\<close>). The calendar is the
  proleptic Gregorian one of ECMAScript: \<open>dayFromYear\<close> is its \<^verbatim>\<open>DayFromYear\<close>.
\<close>

definition MS_PER_DAY :: int where
  "MS_PER_DAY = 86400000"

definition timeClip :: "int \<Rightarrow> int option" where
  "timeClip t =
     (if - 8640000000000000 \<le> t \<and> t \<le> 8640000000000000 then Some t else None)"

definition dayFromYear :: "int \<Rightarrow> int" where
  "dayFromYear y =
     365 * (y - 1970) + (y - 1969) div 4 - (y - 1901) div 100 + (y - 1601) div 400"

definition yearFromDay :: "int \<Rightarrow> int" where
  "yearFromDay d =
     (let y = 1970 + (400 * d) div 146097
      in if d < dayFromYear y then y - 1
         else if dayFromYear (y + 1) \<le> d then y + 1
         else y)"

definition leap :: "int \<Rightarrow> int" where
  "leap y = dayFromYear (y + 1) - dayFromYear y - 365"

text \<open>The day of the year on which month \<open>m\<close> (from 1) starts; \<open>m = 13\<close> is the year's end.\<close>

definition monthStart :: "int \<Rightarrow> nat \<Rightarrow> int" where
  "monthStart l m =
     (if m \<le> 1 then 0 else if m = 2 then 31
      else [59, 90, 120, 151, 181, 212, 243, 273, 304, 334, 365] ! (m - 3) + l)"

definition monthFromDay :: "int \<Rightarrow> int \<Rightarrow> nat" where
  "monthFromDay l k = length (filter (\<lambda>m. monthStart l m \<le> k) [2 ..< 13]) + 1"

definition pad :: "nat \<Rightarrow> int \<Rightarrow> string" where
  "pad w n = map (\<lambda>i. digit (nat ((n div 10 ^ (w - 1 - i)) mod 10))) [0 ..< w]"

definition yearString :: "int \<Rightarrow> string" where
  "yearString y =
     (if 0 \<le> y \<and> y \<le> 9999 then pad 4 y
      else (if y < 0 then ''-'' else ''+'') @ pad 6 \<bar>y\<bar>)"

text \<open>\<^verbatim>\<open>Date.prototype.toISOString\<close> on a valid time value.\<close>

definition isoString :: "int \<Rightarrow> string" where
  "isoString t =
     (let d = t div MS_PER_DAY; ms = t mod MS_PER_DAY;
          y = yearFromDay d; k = d - dayFromYear y;
          m = monthFromDay (leap y) k
      in yearString y @ ''-'' @ pad 2 (int m) @ ''-'' @ pad 2 (k - monthStart (leap y) m + 1)
         @ ''T'' @ pad 2 (ms div 3600000) @ '':'' @ pad 2 (ms div 60000 mod 60)
         @ '':'' @ pad 2 (ms div 1000 mod 60) @ ''.'' @ pad 3 (ms mod 1000) @ ''Z'')"

text \<open>On an invalid date \<^verbatim>\<open>toISOString\<close> throws a \<^verbatim>\<open>RangeError\<close>.\<close>

definition toISOString :: "int option \<Rightarrow> error + string" where
  "toISOString tv = (case tv of None \<Rightarrow> Inl RangeError | Some t \<Rightarrow> Inr (isoString t))"

text \<open>
  Reading the date-time format back. \<open>parseISO\<close> decides the strings
  \<^verbatim>\<open>YYYY-MM-DD\<close>, \<^verbatim>\<open>YYYY-MM-DDTHH:mm:ssZ\<close> and \<^verbatim>\<open>YYYY-MM-DDTHH:mm:ss.sssZ\<close>,
  the year also in the expanded form \<^verbatim>\<open>+YYYYYY\<close> or \<^verbatim>\<open>-YYYYYY\<close>, when every field
  is in range; on these every engine agrees (ECMAScript, Date Time String Format).
  Any other string is left to the host.
\<close>

definition digitVal :: "char \<Rightarrow> int option" where
  "digitVal c = (let n = of_char c :: int in if 48 \<le> n \<and> n \<le> 57 then Some (n - 48) else None)"

fun number :: "int \<Rightarrow> string \<Rightarrow> int option" where
  "number acc [] = Some acc"
| "number acc (c # cs) =
     (case digitVal c of None \<Rightarrow> None | Some n \<Rightarrow> number (10 * acc + n) cs)"

text \<open>\<open>eat w s\<close> reads exactly \<open>w\<close> digits off the front of \<open>s\<close>.\<close>

definition eat :: "nat \<Rightarrow> string \<Rightarrow> (int \<times> string) option" where
  "eat w s =
     (if length s < w then None
      else case number 0 (take w s) of None \<Rightarrow> None | Some n \<Rightarrow> Some (n, drop w s))"

definition eatYear :: "string \<Rightarrow> (int \<times> string) option" where
  "eatYear s =
     (case s of
        [] \<Rightarrow> None
      | c # cs \<Rightarrow>
          if c = CHR ''+'' then
            eat 6 cs
          else if c = CHR ''-'' then
            (case eat 6 cs of None \<Rightarrow> None
             | Some (n, r) \<Rightarrow> if n = 0 then None else Some (- n, r))
          else eat 4 s)"

definition eatDate :: "string \<Rightarrow> (int \<times> string) option" where
  "eatDate s =
     (case eatYear s of None \<Rightarrow> None
      | Some (y, r1) \<Rightarrow>
     (case r1 of [] \<Rightarrow> None
      | c1 # r2 \<Rightarrow> if c1 \<noteq> CHR ''-'' then None else
     (case eat 2 r2 of None \<Rightarrow> None
      | Some (m, r3) \<Rightarrow>
     (case r3 of [] \<Rightarrow> None
      | c2 # r4 \<Rightarrow> if c2 \<noteq> CHR ''-'' then None else
     (case eat 2 r4 of None \<Rightarrow> None
      | Some (d, r5) \<Rightarrow>
          if 1 \<le> m \<and> m \<le> 12 \<and> 1 \<le> d
             \<and> d \<le> monthStart (leap y) (nat m + 1) - monthStart (leap y) (nat m)
          then Some (dayFromYear y + monthStart (leap y) (nat m) + d - 1, r5)
          else None)))))"

definition eatTime :: "string \<Rightarrow> int option" where
  "eatTime s =
     (case s of [] \<Rightarrow> None
      | c0 # r0 \<Rightarrow> if c0 \<noteq> CHR ''T'' then None else
     (case eat 2 r0 of None \<Rightarrow> None
      | Some (hh, r1) \<Rightarrow>
     (case r1 of [] \<Rightarrow> None
      | c1 # r2 \<Rightarrow> if c1 \<noteq> CHR '':'' then None else
     (case eat 2 r2 of None \<Rightarrow> None
      | Some (mm, r3) \<Rightarrow>
     (case r3 of [] \<Rightarrow> None
      | c2 # r4 \<Rightarrow> if c2 \<noteq> CHR '':'' then None else
     (case eat 2 r4 of None \<Rightarrow> None
      | Some (ss, r5) \<Rightarrow>
          if \<not> (hh \<le> 23 \<and> mm \<le> 59 \<and> ss \<le> 59) then None
          else if r5 = ''Z'' then Some (hh * 3600000 + mm * 60000 + ss * 1000)
          else
     (case r5 of [] \<Rightarrow> None
      | c3 # r6 \<Rightarrow> if c3 \<noteq> CHR ''.'' then None else
     (case eat 3 r6 of None \<Rightarrow> None
      | Some (ms, r7) \<Rightarrow>
          if r7 = ''Z'' then Some (hh * 3600000 + mm * 60000 + ss * 1000 + ms)
          else None))))))))"

definition parseISO :: "string \<Rightarrow> int option" where
  "parseISO s =
     (case eatDate s of None \<Rightarrow> None
      | Some (d, r) \<Rightarrow>
          if r = [] then Some (d * MS_PER_DAY)
          else (case eatTime r of None \<Rightarrow> None | Some ms \<Rightarrow> Some (d * MS_PER_DAY + ms)))"

text \<open>\<^verbatim>\<open>Date.parse\<close>, then the clipping the \<^verbatim>\<open>Date\<close> constructor applies.\<close>

definition dateParse :: "host \<Rightarrow> string \<Rightarrow> int option" where
  "dateParse h s =
     (case (case parseISO s of Some t \<Rightarrow> Some t | None \<Rightarrow> legacyDateParse h s) of
        None \<Rightarrow> None
      | Some t \<Rightarrow> timeClip t)"

text \<open>
  \<^verbatim>\<open>new Date(v)\<close>: a string is parsed, a number or boolean is the time value
  (truncated to an integer), an array or object is first turned into a string, which
  can throw.
\<close>

fun newDate :: "host \<Rightarrow> jsval \<Rightarrow> error + int option" where
  "newDate h (JStr s) = Inr (dateParse h s)"
| "newDate h (JNum (Fin q)) =
     Inr (timeClip (if 0 \<le> q then \<lfloor>q\<rfloor> else \<lceil>q\<rceil>))"
| "newDate h (JNum n) = Inr None"
| "newDate h (JBool b) = Inr (Some (if b then 1 else 0))"
| "newDate h JNull = Inr (Some 0)"
| "newDate h JUndef = Inr None"
| "newDate h v = andThen (toStringJS h v) (\<lambda>s. Inr (dateParse h s))"

section \<open>Helpers shared by the two files\<close>

text \<open>
  \<^verbatim>\<open>toNum\<close> (the same in both files): \<^verbatim>\<open>null\<close> unless the value is a finite
  number. \<^verbatim>\<open>String(v)\<close> can throw.
\<close>

fun finite_num :: "jsnum \<Rightarrow> rat option" where
  "finite_num (Fin q) = Some q"
| "finite_num n = None"

definition toNum :: "host \<Rightarrow> jsval \<Rightarrow> error + rat option" where
  "toNum h v =
     (if nullish v \<or> v = JStr [] then Inr None
      else case v of
        JNum n \<Rightarrow> Inr (finite_num n)
      | _ \<Rightarrow> andThen (toStringJS h v)
               (\<lambda>s. Inr (finite_num (stringToNumber h (filter (\<lambda>c. c \<noteq> CHR '','') s)))))"

text \<open>
  \<^verbatim>\<open>toISO\<close> (the same in both files). \<^verbatim>\<open>toISOString\<close> is only reached with a valid
  time value, so it cannot throw here; \<^verbatim>\<open>new Date\<close> can.
\<close>

definition toISO :: "host \<Rightarrow> jsval \<Rightarrow> error + string option" where
  "toISO h dateLike =
     (if \<not> truthy dateLike then Inr None
      else andThen (newDate h dateLike)
             (\<lambda>d. Inr (case d of None \<Rightarrow> None | Some t \<Rightarrow> Some (isoString t))))"

text \<open>\<^verbatim>\<open>kpToAp\<close> (the same in both files): \<^verbatim>\<open>t[kpInt] ?? null\<close>.\<close>

definition kpToAp :: "int \<Rightarrow> rat option" where
  "kpToAp kpInt =
     map_of [(0, 0), (1, 3), (2, 7), (3, 15), (4, 27), (5, 48), (6, 80), (7, 140),
             (8, 240), (9, 400)] kpInt"

text \<open>
  \<^verbatim>\<open>kpToAp(Math.round(kp))\<close> on a number: \<^verbatim>\<open>Math.round\<close> keeps \<^verbatim>\<open>NaN\<close> and the
  infinities, which are no keys of the table.
\<close>

fun kpToApRounded :: "jsnum \<Rightarrow> rat option" where
  "kpToApRounded (Fin k) = kpToAp (mathRound k)"
| "kpToApRounded n = None"

text \<open>The canonical row \<^verbatim>\<open>{ id, date, kp, ap, f107, note, label }\<close>.\<close>

record row =
  row_id :: jsval
  row_date :: "string option"
  row_kp :: "jsnum option"
  row_ap :: "rat option"
  row_f107 :: "rat option"
  row_note :: jsval
  row_label :: jsval

definition numv :: "rat option \<Rightarrow> jsval" where
  "numv n = (case n of None \<Rightarrow> JNull | Some q \<Rightarrow> JNum (Fin q))"

definition jsnumv :: "jsnum option \<Rightarrow> jsval" where
  "jsnumv n = (case n of None \<Rightarrow> JNull | Some q \<Rightarrow> JNum q)"

definition strv :: "string option \<Rightarrow> jsval" where
  "strv s = (case s of None \<Rightarrow> JNull | Some t \<Rightarrow> JStr t)"

text \<open>A row as the JavaScript object it is, for the code that reads it again.\<close>

definition rowObj :: "row \<Rightarrow> jsval" where
  "rowObj r =
     JObj [(''id'', row_id r), (''date'', strv (row_date r)), (''kp'', jsnumv (row_kp r)),
           (''ap'', numv (row_ap r)), (''f107'', numv (row_f107 r)),
           (''note'', row_note r), (''label'', row_label r)]"

definition kpField :: "jsval \<Rightarrow> jsval" where
  "kpField d =
     nc (getProp d ''kp'') (nc (getProp d ''Kp'') (nc (getProp d ''kp_index'')
       (getProp d ''KpIndex'')))"

definition apField :: "jsval \<Rightarrow> jsval" where
  "apField d = nc (getProp d ''ap'') (nc (getProp d ''Ap'') (getProp d ''ap_index''))"

definition f107Field :: "jsval \<Rightarrow> jsval" where
  "f107Field d =
     nc (getProp d ''f107'') (nc (getProp d ''F107'') (nc (getProp d ''f10_7'')
       (getProp d ''solar_flux'')))"

definition noteField :: "jsval \<Rightarrow> jsval" where
  "noteField d = nc (getProp d ''note'') (nc (getProp d ''comment'') JNull)"

section \<open>extractForecast.js\<close>

definition WRAPPER_KEYS :: "string list" where
  "WRAPPER_KEYS =
     [''forecast'', ''predictions'', ''data'', ''items'', ''result'', ''values'', ''latest'']"

definition KP_KEYS :: "string list" where
  "KP_KEYS = [''kp'', ''Kp'', ''kp_index'', ''KpIndex'']"

definition AP_KEYS :: "string list" where
  "AP_KEYS = [''ap'', ''Ap'', ''ap_index'']"

definition F107_KEYS :: "string list" where
  "F107_KEYS = [''f107'', ''F107'', ''f10_7'', ''solar_flux'']"

definition DATE_ARRAY_KEYS :: "string list" where
  "DATE_ARRAY_KEYS = [''dates'', ''date'']"

fun firstArray :: "jsval \<Rightarrow> string list \<Rightarrow> jsval list option" where
  "firstArray obj [] = None"
| "firstArray obj (k # ks) =
     (case getProp obj k of JArr v \<Rightarrow> Some v | _ \<Rightarrow> firstArray obj ks)"

fun firstScalarLoop :: "jsval \<Rightarrow> string list \<Rightarrow> jsval" where
  "firstScalarLoop obj [] = JNull"
| "firstScalarLoop obj (k # ks) =
     (let v = getProp obj k
      in if v \<noteq> JUndef \<and> v \<noteq> JNull \<and> \<not> isArray v then v else firstScalarLoop obj ks)"

definition firstScalar :: "jsval \<Rightarrow> string list \<Rightarrow> jsval" where
  "firstScalar obj keys = (if \<not> truthy obj then JNull else firstScalarLoop obj keys)"

text \<open>
  \<^verbatim>\<open>Object.keys\<close> and \<^verbatim>\<open>Object.entries\<close>, on the values that reach them: an
  array or a string lists its indices, a number or a boolean nothing.
\<close>

fun entries :: "jsval \<Rightarrow> (string \<times> jsval) list" where
  "entries (JObj kvs) = kvs"
| "entries (JArr xs) = map (\<lambda>(i, x). (decimal i, x)) (enumerate 0 xs)"
| "entries (JStr s) = map (\<lambda>(i, c). (decimal i, JStr [c])) (enumerate 0 s)"
| "entries v = []"

text \<open>\<^verbatim>\<open>typeof v === "object"\<close>.\<close>

fun isObject :: "jsval \<Rightarrow> bool" where
  "isObject (JObj kvs) = True"
| "isObject (JArr xs) = True"
| "isObject JNull = True"
| "isObject v = False"

definition looksLikeDay :: "jsval \<Rightarrow> bool" where
  "looksLikeDay o' =
     (if \<not> truthy o' \<or> \<not> isObject o' then False
      else list_ex (\<lambda>k. k \<in> set (map fst (entries o'))) KP_KEYS)"

text \<open>
  The loop of \<^verbatim>\<open>buildDatesFromStart\<close>: each \<^verbatim>\<open>new Date(base.getTime() + i * MS_PER_DAY)\<close>
  is clipped, and \<^verbatim>\<open>toISOString\<close> throws when the sum left the range of time values.
\<close>

fun buildDatesLoop :: "int \<Rightarrow> nat list \<Rightarrow> error + jsval list" where
  "buildDatesLoop base [] = Inr []"
| "buildDatesLoop base (i # is) =
     andThen (toISOString (timeClip (base + int i * MS_PER_DAY)))
       (\<lambda>s. andThen (buildDatesLoop base is) (\<lambda>out. Inr (JStr (take 10 s) # out)))"

definition buildDatesFromStart :: "host \<Rightarrow> jsval \<Rightarrow> nat \<Rightarrow> error + jsval list" where
  "buildDatesFromStart h startISO n =
     (if \<not> truthy startISO \<or> n = 0 then Inr []
      else andThen (toStringJS h startISO)
        (\<lambda>s. case dateParse h (s @ ''T00:00:00Z'') of
                None \<Rightarrow> Inr []
              | Some base \<Rightarrow> buildDatesLoop base [0 ..< n]))"

text \<open>The body of the loop of \<^verbatim>\<open>massage\<close>, and the loop.\<close>

definition massageRow :: "host \<Rightarrow> nat \<Rightarrow> jsval \<Rightarrow> error + row" where
  "massageRow h i x =
     (let d = nc x (JObj [])
      in andThen (if truthy (getProp d ''date'')
                  then andThen (toStringJS h (getProp d ''date'')) (\<lambda>s. toISO h (JStr s))
                  else Inr None)
        (\<lambda>isoStr. andThen (toNum h (kpField d))
        (\<lambda>kpVal. andThen (toNum h (apField d))
        (\<lambda>apVal0. andThen (toNum h (f107Field d))
        (\<lambda>f107Val.
           let apVal = (if apVal0 = None \<and> kpVal \<noteq> None
                        then (case kpVal of Some k \<Rightarrow> kpToAp (mathRound k) | None \<Rightarrow> None)
                        else apVal0)
           in Inr \<lparr> row_id = nc (getProp d ''id'') (nc (strv isoStr) (JNum (Fin (of_nat i)))),
                     row_date = isoStr,
                     row_kp = map_option Fin kpVal,
                     row_ap = apVal,
                     row_f107 = f107Val,
                     row_note = noteField d,
                     row_label = (case isoStr of Some s \<Rightarrow> JStr (formatMMMD h s)
                                  | None \<Rightarrow> JStr (''D'' @ decimal (i + 1))) \<rparr>)))))"

definition massage :: "host \<Rightarrow> jsval list \<Rightarrow> error + row list" where
  "massage h arr = mapE (\<lambda>(i, x). massageRow h i x) (enumerate 0 arr)"

definition optIdx :: "jsval list option \<Rightarrow> nat \<Rightarrow> jsval" where
  "optIdx a i = (case a of None \<Rightarrow> JUndef | Some xs \<Rightarrow> idx xs i)"

definition horizonRow ::
  "host \<Rightarrow> jsval list \<Rightarrow> jsval list \<Rightarrow> jsval list option \<Rightarrow> jsval
     \<Rightarrow> jsval list option \<Rightarrow> jsval \<Rightarrow> nat \<Rightarrow> error + jsval" where
  "horizonRow h horizon dates apArr apScalar fArr fScalar i =
     andThen (toNum h (idx horizon i))
       (\<lambda>kp. andThen (toNum h (nc (optIdx apArr i) apScalar))
       (\<lambda>ap. andThen (toNum h (nc (optIdx fArr i) fScalar))
       (\<lambda>f107. Inr (JObj [(''date'', nc (idx dates i) JNull), (''kp'', numv kp),
                          (''ap'', numv ap), (''f107'', numv f107)]))))"

definition columnRow ::
  "host \<Rightarrow> jsval list \<Rightarrow> jsval list \<Rightarrow> jsval list option \<Rightarrow> jsval list option
     \<Rightarrow> nat \<Rightarrow> error + jsval" where
  "columnRow h ds kps apArr fArr i =
     andThen (toNum h (idx kps i))
       (\<lambda>kp. andThen (toNum h (optIdx apArr i))
       (\<lambda>ap. andThen (toNum h (optIdx fArr i))
       (\<lambda>f107. Inr (JObj [(''date'', idx ds i), (''kp'', numv kp),
                          (''ap'', numv ap), (''f107'', numv f107)]))))"

definition isDigit :: "char \<Rightarrow> bool" where
  "isDigit c = (digitVal c \<noteq> None)"

text \<open>The test \<^verbatim>\<open>/^D\d+$/\<close>.\<close>

definition isDayKey :: "string \<Rightarrow> bool" where
  "isDayKey k =
     (case k of [] \<Rightarrow> False | c # cs \<Rightarrow> c = CHR ''D'' \<and> cs \<noteq> [] \<and> list_all isDigit cs)"

text \<open>
  \<^verbatim>\<open>parseInt(k.slice(1), 10)\<close> on a key that passed the test: the double nearest to
  the integer the digits spell (\<^verbatim>\<open>Infinity\<close> when it is too large). A host may replace
  the digits after the twentieth by zeros before rounding; that freedom is not modelled.
\<close>

definition dayNumber :: "string \<Rightarrow> jsnum" where
  "dayNumber k = (case number 0 (drop 1 k) of Some n \<Rightarrow> fround (of_int n) | None \<Rightarrow> NaN)"

text \<open>
  The comparator \<^verbatim>\<open>parseInt(a.slice(1), 10) - parseInt(b.slice(1), 10)\<close>, by its sign;
  the difference of two infinities is \<^verbatim>\<open>NaN\<close>, which \<^verbatim>\<open>sort\<close> reads as 0.
\<close>

fun minusSign :: "jsnum \<Rightarrow> jsnum \<Rightarrow> int" where
  "minusSign (Fin x) (Fin y) = (if x < y then - 1 else if y < x then 1 else 0)"
| "minusSign (Fin x) PosInf = - 1"
| "minusSign (Fin x) NegInf = 1"
| "minusSign PosInf (Fin y) = 1"
| "minusSign NegInf (Fin y) = - 1"
| "minusSign PosInf NegInf = 1"
| "minusSign NegInf PosInf = - 1"
| "minusSign a b = 0"

text \<open>
  \<^verbatim>\<open>Array.prototype.sort\<close> is stable, and with a comparator that is a total preorder
  its result is the one stable sorted arrangement, which insertion from the right
  computes.
\<close>

fun insertBy :: "('a \<Rightarrow> 'a \<Rightarrow> int) \<Rightarrow> 'a \<Rightarrow> 'a list \<Rightarrow> 'a list" where
  "insertBy cmp x [] = [x]"
| "insertBy cmp x (y # ys) =
     (if cmp x y \<le> 0 then x # y # ys else y # insertBy cmp x ys)"

definition sortBy :: "('a \<Rightarrow> 'a \<Rightarrow> int) \<Rightarrow> 'a list \<Rightarrow> 'a list" where
  "sortBy cmp xs = foldr (insertBy cmp) xs []"

definition dayRow :: "host \<Rightarrow> jsval \<Rightarrow> error + jsval" where
  "dayRow h v =
     andThen (toNum h (kpField v))
       (\<lambda>kp. andThen (toNum h (apField v))
       (\<lambda>ap. andThen (toNum h (f107Field v))
       (\<lambda>f107. Inr (JObj [(''date'', nc (getProp v ''date'') JNull), (''kp'', numv kp),
                          (''ap'', numv ap), (''f107'', numv f107),
                          (''note'', noteField v)]))))"

text \<open>
  Every branch of \<^verbatim>\<open>extractForecast\<close> ends in \<^verbatim>\<open>return massage(rows)\<close> or in
  \<^verbatim>\<open>return []\<close>. \<open>dayRecords\<close> is the function up to that point: the array handed to
  \<^verbatim>\<open>massage\<close>, or \<open>None\<close> where the code returns the empty array.
\<close>

definition dayRecords :: "host \<Rightarrow> jsval \<Rightarrow> error + jsval list option" where
  "dayRecords h payload =
     (if \<not> truthy payload then Inr None
      else if isArray (getProp payload ''horizon'') then
        (let horizon = elems (getProp payload ''horizon'');
             explicitDates =
               (if isArray (getProp payload ''dates_utc'')
                   \<and> length (elems (getProp payload ''dates_utc'')) = length horizon
                then Some (elems (getProp payload ''dates_utc'')) else None);
             startISO =
               lor (getProp payload ''beyond_start_utc'')
                 (lor (getProp (getProp payload ''meta'') ''beyond_start_utc'')
                   (lor (getProp (getProp payload ''meta'') ''start_date_day1_utc'') JNull))
         in andThen (case explicitDates of Some ds \<Rightarrow> Inr ds
                     | None \<Rightarrow> buildDatesFromStart h startISO (length horizon))
            (\<lambda>dates.
               let apArr = firstArray payload AP_KEYS;
                   fArr = firstArray payload F107_KEYS;
                   apScalar = nc (firstScalar payload AP_KEYS)
                                (firstScalar (getProp payload ''meta'') AP_KEYS);
                   fScalar = nc (firstScalar payload F107_KEYS)
                               (firstScalar (getProp payload ''meta'') F107_KEYS)
               in andThen (mapE (horizonRow h horizon dates apArr apScalar fArr fScalar)
                             [0 ..< length horizon])
                    (\<lambda>rows. Inr (Some rows))))
      else if isArray payload then Inr (Some (elems payload))
      else case find (\<lambda>k. isArray (getProp payload k)) WRAPPER_KEYS of
        Some k \<Rightarrow> Inr (Some (elems (getProp payload k)))
      | None \<Rightarrow>
     (case (find (\<lambda>k. isArray (getProp payload k)) DATE_ARRAY_KEYS,
            find (\<lambda>k. isArray (getProp payload k)) KP_KEYS) of
        (Some dkey, Some kpkey) \<Rightarrow>
          (let ds = elems (getProp payload dkey); kps = elems (getProp payload kpkey);
               len = min (length ds) (length kps);
               apArr = firstArray payload AP_KEYS;
               fArr = firstArray payload F107_KEYS
           in andThen (mapE (columnRow h ds kps apArr fArr) [0 ..< len])
                (\<lambda>rows. Inr (Some rows)))
      | _ \<Rightarrow>
     (let dayEntries =
            filter (\<lambda>(k, v). isDayKey k \<and> truthy v \<and> isObject v) (entries payload)
      in if dayEntries \<noteq> [] then
           andThen (mapE (\<lambda>(k, v). dayRow h v)
                      (sortBy (\<lambda>(a, u) (b, v). minusSign (dayNumber a) (dayNumber b))
                         dayEntries))
             (\<lambda>rows. Inr (Some rows))
         else if looksLikeDay payload then Inr (Some [payload])
         else Inr None)))"

definition extractForecast :: "host \<Rightarrow> jsval \<Rightarrow> error + row list" where
  "extractForecast h payload =
     andThen (dayRecords h payload)
       (\<lambda>recs. case recs of None \<Rightarrow> Inr [] | Some arr \<Rightarrow> massage h arr)"

section \<open>normalize.js\<close>

text \<open>
  \<^verbatim>\<open>round1\<close>: the product \<^verbatim>\<open>n * 10\<close> and the quotient by 10 are each rounded to a
  double; \<^verbatim>\<open>Math.round\<close> in between is exact and keeps an infinity.
\<close>

definition round1 :: "rat option \<Rightarrow> jsnum option" where
  "round1 n =
     (case n of None \<Rightarrow> None
      | Some q \<Rightarrow>
          Some (case fround (q * 10) of
                  Fin p \<Rightarrow> fround (of_int (mathRound p) / 10)
                | other \<Rightarrow> other))"

definition clamp :: "jsnum option \<Rightarrow> rat \<Rightarrow> rat \<Rightarrow> jsnum option" where
  "clamp n lo hi = (case n of None \<Rightarrow> None | Some q \<Rightarrow> Some (mathMin hi (mathMax lo q)))"

definition ensureLabel :: "host \<Rightarrow> string option \<Rightarrow> nat \<Rightarrow> jsval" where
  "ensureLabel h isoStr i =
     (if truthy (strv isoStr) then JStr (formatMMMD h (case isoStr of Some s \<Rightarrow> s | None \<Rightarrow> []))
      else JStr (''D'' @ decimal (i + 1)))"

text \<open>
  \<^verbatim>\<open>a.localeCompare(b)\<close> is only called on two strings \<^verbatim>\<open>toISOString\<close> made. They
  are compared by the collation of the host's locale; on the characters of such strings
  that is the order of the Unicode root collation, in which the punctuation
  \<^verbatim>\<open>- : . +\<close> comes in this order before the digits, and the digits before the
  letters \<^verbatim>\<open>T\<close> and \<^verbatim>\<open>Z\<close>. Other characters never reach it; they are put last.
\<close>

definition collationKey :: "char \<Rightarrow> nat" where
  "collationKey c =
     (if c = CHR ''-'' then 0 else if c = CHR '':'' then 1 else if c = CHR ''.'' then 2
      else if c = CHR ''+'' then 3
      else if isDigit c then 4 + (of_char c - 48)
      else if c = CHR ''T'' then 14 else if c = CHR ''Z'' then 15
      else 16 + of_char c)"

fun localeCompare :: "string \<Rightarrow> string \<Rightarrow> int" where
  "localeCompare [] [] = 0"
| "localeCompare [] (b # bs) = - 1"
| "localeCompare (a # as) [] = 1"
| "localeCompare (a # as) (b # bs) =
     (if collationKey a < collationKey b then - 1
      else if collationKey b < collationKey a then 1
      else localeCompare as bs)"

text \<open>
  A row between the map step and the final strip carries \<^verbatim>\<open>__i\<close>, its index in the
  input: here the first component of a pair.
\<close>

type_synonym irow = "nat \<times> row"

definition byDateThenIdx :: "irow \<Rightarrow> irow \<Rightarrow> int" where
  "byDateThenIdx a b =
     (if truthy (strv (row_date (snd a))) \<and> truthy (strv (row_date (snd b)))
      then (case (row_date (snd a), row_date (snd b)) of
              (Some s, Some t) \<Rightarrow> localeCompare s t | _ \<Rightarrow> 0)
      else if truthy (strv (row_date (snd a))) then - 1
      else if truthy (strv (row_date (snd b))) then 1
      else int (fst a) - int (fst b))"

text \<open>Step 1 of \<^verbatim>\<open>normalize\<close>: the callback of \<^verbatim>\<open>rowsIn.map\<close>.\<close>

definition mapRow :: "host \<Rightarrow> nat \<Rightarrow> jsval \<Rightarrow> error + irow" where
  "mapRow h i d =
     andThen (if truthy (getProp d ''date'') then toISO h (getProp d ''date'') else Inr None)
       (\<lambda>isoStr. andThen (toNum h (kpField d))
       (\<lambda>kpRaw. andThen (toNum h (apField d))
       (\<lambda>ap0. andThen (toNum h (f107Field d))
       (\<lambda>f107.
          let kp = clamp (round1 kpRaw) 0 9;
              ap = (if ap0 = None \<and> kp \<noteq> None
                    then (case kp of Some k \<Rightarrow> kpToApRounded k | None \<Rightarrow> None)
                    else ap0)
          in Inr (i, \<lparr> row_id = nc (getProp d ''id'') (nc (strv isoStr) (JNum (Fin (of_nat i)))),
                       row_date = isoStr,
                       row_kp = kp,
                       row_ap = ap,
                       row_f107 = f107,
                       row_note = noteField d,
                       row_label = nc (getProp d ''label'') (ensureLabel h isoStr i) \<rparr>)))))"

text \<open>Step 3: the key of a row in \<^verbatim>\<open>seenDates\<close>, and the loop that drops repeats.\<close>

definition dedupeKey :: "irow \<Rightarrow> string" where
  "dedupeKey r =
     (if truthy (strv (row_date (snd r)))
      then (case row_date (snd r) of Some s \<Rightarrow> s | None \<Rightarrow> [])
      else ''idx:'' @ decimal (fst r))"

fun dedupe :: "string set \<Rightarrow> irow list \<Rightarrow> irow list" where
  "dedupe seenDates [] = []"
| "dedupe seenDates (r # rs) =
     (if dedupeKey r \<in> seenDates then dedupe seenDates rs
      else r # dedupe (insert (dedupeKey r) seenDates) rs)"

text \<open>Steps 1 to 4 of \<^verbatim>\<open>normalize\<close>.\<close>

definition mappedRows :: "host \<Rightarrow> jsval list \<Rightarrow> error + irow list" where
  "mappedRows h rowsIn = mapE (\<lambda>(i, d). mapRow h i d) (enumerate 0 rowsIn)"

definition sortedRows :: "irow list \<Rightarrow> irow list" where
  "sortedRows mapped = sortBy byDateThenIdx mapped"

definition pipeline :: "host \<Rightarrow> jsval list \<Rightarrow> error + row list" where
  "pipeline h rowsIn =
     andThen (mappedRows h rowsIn) (\<lambda>mapped. Inr (map snd (dedupe {} (sortedRows mapped))))"

text \<open>\<^verbatim>\<open>const rowsIn = Array.isArray(input) ? input : extractForecast(input)\<close>.\<close>

definition rowsIn :: "host \<Rightarrow> jsval \<Rightarrow> error + jsval list" where
  "rowsIn h input =
     (if isArray input then Inr (elems input)
      else andThen (extractForecast h input) (\<lambda>rows. Inr (map rowObj rows)))"

text \<open>
  \<^verbatim>\<open>stamp\<close>: the template literal turns the first and the last \<^verbatim>\<open>id\<close> (or
  \<^verbatim>\<open>date\<close>) into strings, which can throw.
\<close>

definition stamp :: "host \<Rightarrow> jsval list \<Rightarrow> error + string" where
  "stamp h arr =
     (if arr = [] then Inr ''0''
      else let first = nc (getProp (hd arr) ''id'') (nc (getProp (hd arr) ''date'') (JStr ''f''));
               last' = nc (getProp (last arr) ''id'')
                          (nc (getProp (last arr) ''date'') (JStr ''l''))
           in andThen (toStringJS h first)
                (\<lambda>f. andThen (toStringJS h last')
                (\<lambda>l. Inr (decimal (length arr) @ ''|'' @ f @ ''|'' @ l))))"

text \<open>
  \<^verbatim>\<open>normalize\<close> with the memo cache made explicit. \<open>cached\<close> is what
  \<^verbatim>\<open>MEMO.get(rowsIn)\<close> returns: \<^verbatim>\<open>undefined\<close>, or the stamp and the value stored by
  an earlier call on the same array. \<^verbatim>\<open>stamp(rowsIn)\<close> is evaluated in the comparison
  whether or not there is an entry, and once more for \<^verbatim>\<open>MEMO.set\<close>. The result is the
  returned rows and the entry the cache then holds for \<^verbatim>\<open>rowsIn\<close>.
\<close>

definition normalizeMemo ::
  "host \<Rightarrow> (string \<times> row list) option \<Rightarrow> jsval
     \<Rightarrow> error + (row list \<times> (string \<times> row list) option)" where
  "normalizeMemo h cached input =
     andThen (rowsIn h input)
       (\<lambda>xs. andThen (stamp h xs)
       (\<lambda>st. if (case cached of Some (s, v) \<Rightarrow> s = st | None \<Rightarrow> False)
              then Inr (case cached of Some (s, v) \<Rightarrow> v | None \<Rightarrow> [], cached)
              else andThen (pipeline h xs)
                     (\<lambda>out. andThen (stamp h xs) (\<lambda>st'. Inr (out, Some (st', out))))))"

text \<open>
  A call whose \<^verbatim>\<open>rowsIn\<close> has no entry in the cache: every call on a payload that is
  not an array, for which \<^verbatim>\<open>extractForecast\<close> builds a new array, and the first call
  on an array. The claims below are about such a call.
\<close>

definition normalize :: "host \<Rightarrow> jsval \<Rightarrow> error + row list" where
  "normalize h input = andThen (normalizeMemo h None input) (\<lambda>(out, entry). Inr out)"

text \<open>A host on which the examples below are run.\<close>

definition exampleHost :: host where
  "exampleHost =
     \<lparr> legacyDateParse = (\<lambda>s. None), stringToNumber = (\<lambda>s. NaN),
       numberToString = (\<lambda>n. ''NaN''), formatMMMD = (\<lambda>s. take 10 s) \<rparr>"

text \<open>Example inputs and the rows \<^verbatim>\<open>normalize\<close> makes of them.\<close>

definition horizonPayload :: jsval where
  "horizonPayload =
     JObj [(''horizon'', JArr [JNum (Fin 2), JNum (Fin 3), JNum (Fin 4)]),
           (''dates_utc'',
            JArr [JStr ''2024-01-01'', JStr ''2024-01-02'', JStr ''2024-01-03''])]"

definition horizonRowOut :: "host \<Rightarrow> string \<Rightarrow> rat \<Rightarrow> rat \<Rightarrow> row" where
  "horizonRowOut h d k a =
     \<lparr> row_id = JStr d, row_date = Some d, row_kp = Some (Fin k), row_ap = Some a,
       row_f107 = None, row_note = JNull, row_label = JStr (formatMMMD h d) \<rparr>"

definition overflowPayload :: jsval where
  "overflowPayload =
     JObj [(''horizon'', JArr [JNum (Fin 1), JNum (Fin 2)]),
           (''beyond_start_utc'', JStr ''+275760-09-13'')]"

definition kp12Record :: jsval where
  "kp12Record = JObj [(''kp'', JNum (Fin 12))]"

definition kp12Row :: row where
  "kp12Row =
     \<lparr> row_id = JNum (Fin 0), row_date = None, row_kp = Some (Fin 9), row_ap = Some 400,
       row_f107 = None, row_note = JNull, row_label = JStr ''D1'' \<rparr>"

text \<open>
  The doubles written \<^verbatim>\<open>3.16\<close> and \<^verbatim>\<open>3.14\<close>, and the largest double below
  \<open>0.45\<close>, written \<^verbatim>\<open>0.44999999999999996\<close>.
\<close>

definition kpPairPayload :: jsval where
  "kpPairPayload =
     JArr [JObj [(''kp'', JNum (Fin (dbl (316 / 100))))],
           JObj [(''kp'', JNum (Fin (dbl (314 / 100))))]]"

definition kpRow :: "nat \<Rightarrow> jsnum \<Rightarrow> rat \<Rightarrow> row" where
  "kpRow i k a =
     \<lparr> row_id = JNum (Fin (of_nat i)), row_date = None, row_kp = Some k, row_ap = Some a,
       row_f107 = None, row_note = JNull, row_label = JStr (''D'' @ decimal (i + 1)) \<rparr>"

definition belowHalfTenth :: rat where
  "belowHalfTenth = 2026619832316723 / 4503599627370496"

definition kpOddRecord :: jsval where
  "kpOddRecord = JObj [(''kp'', JNum (Fin (111 / 32)))]"

definition wrappedPayload :: jsval where
  "wrappedPayload = JObj [(''data'', JArr [kp12Record, kpOddRecord])]"

section \<open>What every output row is\<close>

lemma andThen_Inr: "andThen m f = Inr y \<longleftrightarrow> (\<exists>x. m = Inr x \<and> f x = Inr y)"
  by (cases m) auto

section \<open>Powers of two\<close>

text \<open>The equation by which \<open>pow2\<close> is evaluated: by repeated squaring.\<close>

lemma pow2_powi: "pow2 e = 2 powi e"
  by (simp add: pow2_def power_int_def inverse_eq_divide power_one_over)

lemma pow2_add: "pow2 (a + b) = pow2 a * pow2 b"
  unfolding pow2_powi by (simp add: power_int_add)

lemma pow2_code [code]:
  "pow2 e =
     (if e = 0 then 1 else if e < 0 then 1 / pow2 (- e)
      else if even e then sq (pow2 (e div 2)) else 2 * sq (pow2 (e div 2)))"
proof -
  have h: "pow2 (e div 2 + e div 2) = sq (pow2 (e div 2))"
    unfolding pow2_add sq_def ..
  have one: "pow2 1 = 2" by (simp add: pow2_def)
  have o: "pow2 (1 + (e div 2 + e div 2)) = 2 * sq (pow2 (e div 2))"
    unfolding pow2_add one sq_def ..
  have e2: "even e \<Longrightarrow> e div 2 + e div 2 = e" by presburger
  have o2: "odd e \<Longrightarrow> 1 + (e div 2 + e div 2) = e" by presburger
  show ?thesis
  proof (cases "e = 0")
    case True then show ?thesis by (simp add: pow2_def)
  next
    case nz: False
    show ?thesis
    proof (cases "e < 0")
      case True then show ?thesis using nz by (simp add: pow2_def)
    next
      case False
      show ?thesis
      proof (cases "even e")
        case True
        then show ?thesis using nz False h e2 by simp
      next
        case odd: False
        then show ?thesis using nz False o o2 by simp
      qed
    qed
  qed
qed

section \<open>The horizon scenario\<close>

text \<open>
  Claim C9. On \<^verbatim>\<open>{horizon: [2,3,4], dates_utc: ["2024-01-01","2024-01-02","2024-01-03"]}\<close>
  \<^verbatim>\<open>normalize\<close> returns exactly three rows, in date order, with \<open>kp\<close> 2, 3, 4, with
  \<open>ap\<close> 7, 15, 27 from the table, and with \<open>f107\<close> \<^verbatim>\<open>null\<close>, on every host.
\<close>

theorem normalize_horizon_scenario:
  "normalize h horizonPayload =
     Inr [horizonRowOut h ''2024-01-01T00:00:00.000Z'' 2 7,
          horizonRowOut h ''2024-01-02T00:00:00.000Z'' 3 15,
          horizonRowOut h ''2024-01-03T00:00:00.000Z'' 4 27]"
  by code_simp

section \<open>Where normalize throws\<close>

text \<open>
  Claim C5 says that \<^verbatim>\<open>normalize\<close> returns on every payload. It does not on
  \<^verbatim>\<open>{horizon: [1, 2], beyond_start_utc: "+275760-09-13"}\<close>: the start date is the last
  day a \<^verbatim>\<open>Date\<close> can hold, \<^verbatim>\<open>buildDatesFromStart\<close> checks only the start for
  \<^verbatim>\<open>NaN\<close>, and \<^verbatim>\<open>toISOString\<close> on the day after throws a \<^verbatim>\<open>RangeError\<close>,
  which nothing catches.
\<close>

theorem normalize_throws_on_late_start:
  "normalize h overflowPayload = Inl RangeError"
  by code_simp

section \<open>Empty results\<close>

lemma pipeline_Nil: "pipeline h [] = Inr []"
  by (simp add: pipeline_def sortedRows_def mappedRows_def sortBy_def)

lemma normalize_no_records:
  assumes "\<not> isArray payload" and "dayRecords h payload = Inr None"
  shows "normalize h payload = Inr []"
  using assms
  by (simp add: normalize_def normalizeMemo_def rowsIn_def extractForecast_def stamp_def
      pipeline_Nil)

lemma getProp_absent: "k \<notin> fst ` set kvs \<Longrightarrow> getProp (JObj kvs) k = JUndef"
  using map_of_eq_None_iff [of kvs k] by simp

lemma normalize_falsy: "\<not> truthy payload \<Longrightarrow> normalize h payload = Inr []"
proof -
  assume f: "\<not> truthy payload"
  then have "\<not> isArray payload" by (cases payload) auto
  moreover have "dayRecords h payload = Inr None" using f by (simp add: dayRecords_def)
  ultimately show ?thesis by (rule normalize_no_records)
qed

lemma dayRecords_fallthrough:
  assumes "\<not> isArray (getProp payload ''horizon'')" and "\<not> isArray payload"
    and "find (\<lambda>k. isArray (getProp payload k)) WRAPPER_KEYS = None"
    and "find (\<lambda>k. isArray (getProp payload k)) DATE_ARRAY_KEYS = None
         \<or> find (\<lambda>k. isArray (getProp payload k)) KP_KEYS = None"
    and "filter (\<lambda>(k, v). isDayKey k \<and> truthy v \<and> isObject v) (entries payload) = []"
    and "\<not> looksLikeDay payload"
  shows "dayRecords h payload = Inr None"
proof (cases "find (\<lambda>k. isArray (getProp payload k)) DATE_ARRAY_KEYS")
  case None
  then show ?thesis using assms(1,2,3,5,6) by (simp add: dayRecords_def)
next
  case (Some a)
  then have "find (\<lambda>k. isArray (getProp payload k)) KP_KEYS = None" using assms(4) by simp
  then show ?thesis using Some assms(1,2,3,5,6) by (simp add: dayRecords_def)
qed

lemma normalize_fallthrough:
  assumes "\<not> isArray (getProp payload ''horizon'')" and "\<not> isArray payload"
    and "find (\<lambda>k. isArray (getProp payload k)) WRAPPER_KEYS = None"
    and "find (\<lambda>k. isArray (getProp payload k)) DATE_ARRAY_KEYS = None
         \<or> find (\<lambda>k. isArray (getProp payload k)) KP_KEYS = None"
    and "filter (\<lambda>(k, v). isDayKey k \<and> truthy v \<and> isObject v) (entries payload) = []"
    and "\<not> looksLikeDay payload"
  shows "normalize h payload = Inr []"
proof -
  have "dayRecords h payload = Inr None"
    using assms by (rule dayRecords_fallthrough)
  with assms(2) show ?thesis by (rule normalize_no_records)
qed

lemma find_absent:
  assumes "\<forall>k \<in> set ks. k \<notin> fst ` set kvs"
  shows "find (\<lambda>k. isArray (getProp (JObj kvs) k)) ks = None"
proof -
  have "\<forall>k \<in> set ks. \<not> isArray (getProp (JObj kvs) k)"
  proof
    fix k assume "k \<in> set ks"
    then have "getProp (JObj kvs) k = JUndef" using assms getProp_absent by blast
    then show "\<not> isArray (getProp (JObj kvs) k)" by simp
  qed
  then show ?thesis by (simp only: find_None_iff) blast
qed

lemma normalize_unknown_keys:
  assumes "\<forall>k \<in> fst ` set kvs.
             k \<noteq> ''horizon'' \<and> k \<notin> set WRAPPER_KEYS \<and> k \<notin> set KP_KEYS \<and> \<not> isDayKey k"
  shows "normalize h (JObj kvs) = Inr []"
proof (rule normalize_fallthrough)
  have "''horizon'' \<notin> fst ` set kvs" using assms by blast
  then have "getProp (JObj kvs) ''horizon'' = JUndef" by (rule getProp_absent)
  then show "\<not> isArray (getProp (JObj kvs) ''horizon'')" by simp
  show "\<not> isArray (JObj kvs)" by simp
  have "\<forall>k \<in> set WRAPPER_KEYS. k \<notin> fst ` set kvs" using assms by blast
  then show "find (\<lambda>k. isArray (getProp (JObj kvs) k)) WRAPPER_KEYS = None"
    by (rule find_absent)
  have kp: "\<forall>k \<in> set KP_KEYS. k \<notin> fst ` set kvs" using assms by blast
  then have "find (\<lambda>k. isArray (getProp (JObj kvs) k)) KP_KEYS = None"
    by (rule find_absent)
  then show "find (\<lambda>k. isArray (getProp (JObj kvs) k)) DATE_ARRAY_KEYS = None
         \<or> find (\<lambda>k. isArray (getProp (JObj kvs) k)) KP_KEYS = None" by (rule disjI2)
  have "\<forall>p \<in> set kvs. \<not> isDayKey (fst p)" using assms by simp
  then have "\<forall>p \<in> set kvs. \<not> (case p of (k, v) \<Rightarrow> isDayKey k \<and> truthy v \<and> isObject v)"
    by (simp add: case_prod_beta)
  then show "filter (\<lambda>(k, v). isDayKey k \<and> truthy v \<and> isObject v) (entries (JObj kvs)) = []"
    by (simp only: filter_empty_conv entries.simps) 
  show "\<not> looksLikeDay (JObj kvs)"
    using kp by (simp add: looksLikeDay_def list_ex_iff)
qed

lemma find_never: "find (\<lambda>k. False) ks = None"
  by (simp add: find_None_iff)

lemma entries_JStr_filter:
  "filter (\<lambda>(k, v). isDayKey k \<and> truthy v \<and> isObject v) (entries (JStr s)) = []"
proof -
  have "\<forall>p \<in> set (entries (JStr s)). \<not> isObject (snd p)" by auto
  then have "\<forall>p \<in> set (entries (JStr s)).
      \<not> (case p of (k, v) \<Rightarrow> isDayKey k \<and> truthy v \<and> isObject v)"
    by (simp add: case_prod_beta del: entries.simps)
  then show ?thesis by (simp only: filter_empty_conv)
qed

lemma normalize_primitive:
  "normalize h (JBool b) = Inr []" "normalize h (JNum n) = Inr []" "normalize h (JStr s) = Inr []"
proof -
  show "normalize h (JBool b) = Inr []"
    by (rule normalize_fallthrough) (simp_all add: find_never looksLikeDay_def)
  show "normalize h (JNum n) = Inr []"
    by (rule normalize_fallthrough) (simp_all add: find_never looksLikeDay_def)
  show "normalize h (JStr s) = Inr []"
    by (rule normalize_fallthrough)
       (simp_all add: find_never entries_JStr_filter looksLikeDay_def del: entries.simps)
qed

text \<open>
  Claim C6. \<^verbatim>\<open>normalize\<close> returns the empty sequence on a falsy payload, so on
  \<^verbatim>\<open>null\<close> and \<^verbatim>\<open>undefined\<close>; on a payload that passes none of the tests of
  \<^verbatim>\<open>extractForecast\<close>; on an object none of whose keys is \<^verbatim>\<open>horizon\<close>, a wrapper
  key, a Kp key or a key \<^verbatim>\<open>D<digits>\<close>, so on \<^verbatim>\<open>{}\<close>; and on every boolean, number
  and string.
\<close>

theorem normalize_empty:
  "(\<not> truthy payload \<longrightarrow> normalize h payload = Inr [])
   \<and> normalize h JNull = Inr [] \<and> normalize h JUndef = Inr []
   \<and> (\<not> isArray (getProp payload ''horizon'') \<and> \<not> isArray payload
        \<and> find (\<lambda>k. isArray (getProp payload k)) WRAPPER_KEYS = None
        \<and> (find (\<lambda>k. isArray (getProp payload k)) DATE_ARRAY_KEYS = None
             \<or> find (\<lambda>k. isArray (getProp payload k)) KP_KEYS = None)
        \<and> filter (\<lambda>(k, v). isDayKey k \<and> truthy v \<and> isObject v) (entries payload) = []
        \<and> \<not> looksLikeDay payload
      \<longrightarrow> normalize h payload = Inr [])
   \<and> ((\<forall>k \<in> fst ` set kvs.
          k \<noteq> ''horizon'' \<and> k \<notin> set WRAPPER_KEYS \<and> k \<notin> set KP_KEYS \<and> \<not> isDayKey k)
      \<longrightarrow> normalize h (JObj kvs) = Inr [])
   \<and> normalize h (JObj []) = Inr []
   \<and> normalize h (JBool b) = Inr [] \<and> normalize h (JNum n) = Inr []
   \<and> normalize h (JStr s) = Inr []"
proof -
  have e: "normalize h (JObj []) = Inr []" using normalize_unknown_keys [of "[]"] by simp
  have n: "normalize h JNull = Inr []" "normalize h JUndef = Inr []"
    by (simp_all add: normalize_falsy)
  have f: "\<not> isArray (getProp payload ''horizon'') \<and> \<not> isArray payload
        \<and> find (\<lambda>k. isArray (getProp payload k)) WRAPPER_KEYS = None
        \<and> (find (\<lambda>k. isArray (getProp payload k)) DATE_ARRAY_KEYS = None
             \<or> find (\<lambda>k. isArray (getProp payload k)) KP_KEYS = None)
        \<and> filter (\<lambda>(k, v). isDayKey k \<and> truthy v \<and> isObject v) (entries payload) = []
        \<and> \<not> looksLikeDay payload
      \<longrightarrow> normalize h payload = Inr []"
    using normalize_fallthrough [of payload h] by (intro impI) (elim conjE)
  have u: "(\<forall>k \<in> fst ` set kvs.
          k \<noteq> ''horizon'' \<and> k \<notin> set WRAPPER_KEYS \<and> k \<notin> set KP_KEYS \<and> \<not> isDayKey k)
      \<longrightarrow> normalize h (JObj kvs) = Inr []"
    using normalize_unknown_keys [of kvs h] by (intro impI)
  have t: "\<not> truthy payload \<longrightarrow> normalize h payload = Inr []"
    using normalize_falsy [of payload h] by (intro impI)
  show ?thesis
    by (intro conjI t n f u e normalize_primitive)
qed

theorem normalize_empty_witness:
  "''status'' \<noteq> ''horizon'' \<and> ''status'' \<notin> set WRAPPER_KEYS \<and> ''status'' \<notin> set KP_KEYS
   \<and> \<not> isDayKey ''status''
   \<and> normalize exampleHost (JObj [(''status'', JStr ''ok'')]) = Inr []
   \<and> \<not> truthy (JNum (Fin 0)) \<and> normalize exampleHost (JNum (Fin 0)) = Inr []"
proof -
  have k: "''status'' \<noteq> ''horizon'' \<and> ''status'' \<notin> set WRAPPER_KEYS
      \<and> ''status'' \<notin> set KP_KEYS \<and> \<not> isDayKey ''status''"
    by (simp add: WRAPPER_KEYS_def KP_KEYS_def isDayKey_def)
  then have b: "\<forall>k \<in> fst ` set [(''status'', JStr ''ok'')].
      k \<noteq> ''horizon'' \<and> k \<notin> set WRAPPER_KEYS \<and> k \<notin> set KP_KEYS \<and> \<not> isDayKey k"
    by simp
  have f: "\<not> truthy (JNum (Fin 0))" by simp
  from normalize_empty [of "JNum (Fin 0)" exampleHost "[(''status'', JStr ''ok'')]"] b f
  have "normalize exampleHost (JObj [(''status'', JStr ''ok'')]) = Inr []
      \<and> normalize exampleHost (JNum (Fin 0)) = Inr []" by blast
  with k f show ?thesis by blast
qed

section \<open>Rounding to a double\<close>

lemma pow2_pos: "0 < pow2 e"
  by (simp add: pow2_def)

lemma pow2_mono: "a \<le> b \<Longrightarrow> pow2 a \<le> pow2 b"
  unfolding pow2_powi by (rule power_int_increasing) simp_all

lemma pow2_strict_mono: "a < b \<Longrightarrow> pow2 a < pow2 b"
  unfolding pow2_powi by (rule power_int_strict_increasing) simp_all

lemma pow2_less_D: "pow2 a < pow2 b \<Longrightarrow> a < b"
  using pow2_mono [of b a] by (cases "a < b") auto

lemma pow2_nat: "0 \<le> e \<Longrightarrow> pow2 e = of_int (2 ^ nat e)"
  by (simp add: pow2_def)

lemma pow2_diff: "pow2 (a - b) = pow2 a / pow2 b"
  unfolding pow2_powi by (simp add: power_int_diff)

lemma bitLength_pos: "0 < n \<Longrightarrow> 1 \<le> bitLength n"
proof (induction n rule: bitLength.induct)
  case (1 n)
  show ?case
  proof (cases "0 < n div 2")
    case True
    then have "1 \<le> bitLength (n div 2)" using 1 by simp
    then show ?thesis using 1(2) by (subst bitLength.simps) simp
  next
    case False
    then have "n div 2 \<le> 0" by simp
    then have "bitLength (n div 2) = 0" by (subst bitLength.simps) simp
    then show ?thesis using 1(2) by (subst bitLength.simps) simp
  qed
qed

lemma bitLength_spec:
  "0 < n \<Longrightarrow> 2 ^ nat (bitLength n - 1) \<le> n \<and> n < 2 ^ nat (bitLength n)"
proof (induction n rule: bitLength.induct)
  case (1 n)
  have b: "bitLength n = 1 + bitLength (n div 2)" using 1(2) by (subst bitLength.simps) simp
  show ?case
  proof (cases "0 < n div 2")
    case True
    then have ih: "2 ^ nat (bitLength (n div 2) - 1) \<le> n div 2"
        "n div 2 < 2 ^ nat (bitLength (n div 2))" using 1 by simp_all
    have p: "1 \<le> bitLength (n div 2)" using True by (rule bitLength_pos)
    then have s: "nat (bitLength (n div 2)) = Suc (nat (bitLength (n div 2) - 1))" by simp
    have "(2::int) ^ nat (bitLength (n div 2)) = 2 * 2 ^ nat (bitLength (n div 2) - 1)"
      by (subst s) simp
    also have "\<dots> \<le> 2 * (n div 2)" using ih(1) by simp
    also have "\<dots> \<le> n" by simp
    finally have lo: "2 ^ nat (bitLength n - 1) \<le> n" by (simp add: b)
    have s2: "nat (bitLength n) = Suc (nat (bitLength (n div 2)))" using p b by simp
    have "n < 2 * (n div 2 + 1)" by presburger
    also have "\<dots> \<le> 2 * 2 ^ nat (bitLength (n div 2))" using ih(2) by simp
    also have "\<dots> = 2 ^ nat (bitLength n)" by (subst s2) simp
    finally show ?thesis using lo by simp
  next
    case False
    then have z: "n div 2 \<le> 0" by simp
    then have "bitLength (n div 2) = 0" by (subst bitLength.simps) simp
    then have b1: "bitLength n = 1" using b by simp
    have "n = 1" using z 1(2) by presburger
    then show ?thesis using b1 by simp
  qed
qed

lemma bitLength_pow2:
  assumes "0 < n"
  shows "pow2 (bitLength n - 1) \<le> of_int n" and "of_int n < pow2 (bitLength n)"
proof -
  have p: "1 \<le> bitLength n" using assms by (rule bitLength_pos)
  have s: "2 ^ nat (bitLength n - 1) \<le> n" "n < 2 ^ nat (bitLength n)"
    using bitLength_spec [OF assms] by simp_all
  have "pow2 (bitLength n - 1) = of_int (2 ^ nat (bitLength n - 1))"
    using p by (intro pow2_nat) simp
  also have "\<dots> \<le> of_int n" using s(1) by (simp only: of_int_le_iff)
  finally show "pow2 (bitLength n - 1) \<le> of_int n" .
  have "(of_int n :: rat) < of_int (2 ^ nat (bitLength n))" using s(2) by (simp only: of_int_less_iff)
  also have "\<dots> = pow2 (bitLength n)" using p by (intro pow2_nat [symmetric]) simp
  finally show "of_int n < pow2 (bitLength n)" .
qed

lemma floorLog2_spec:
  assumes "0 < a"
  shows "pow2 (floorLog2 a) \<le> a" and "a < pow2 (floorLog2 a + 1)"
proof -
  obtain p q where pq: "quotient_of a = (p, q)" by (cases "quotient_of a")
  then have q: "0 < q" and a: "a = of_int p / of_int q"
    using quotient_of_denom_pos quotient_of_div by blast+
  have p: "0 < p" using assms a q by (simp add: zero_less_divide_iff)
  define bp bq where "bp = bitLength p" and "bq = bitLength q"
  have P: "pow2 (bp - 1) \<le> of_int p" "of_int p < pow2 bp"
    using bitLength_pow2 [OF p] by (simp_all add: bp_def)
  have Q: "pow2 (bq - 1) \<le> of_int q" "of_int q < pow2 bq"
    using bitLength_pow2 [OF q] by (simp_all add: bq_def)
  have q0: "(0::rat) < of_int q" using q by simp
  have p0: "(0::rat) < of_int p" using p by simp
  have "a < pow2 bp / of_int q" using P(2) q0 by (simp add: a divide_strict_right_mono)
  also have "\<dots> \<le> pow2 bp / pow2 (bq - 1)"
    using Q(1) pow2_pos [of "bq - 1"] pow2_pos [of bp] by (simp add: frac_le)
  also have "\<dots> = pow2 (bp - bq + 1)" by (simp add: pow2_diff [symmetric] algebra_simps)
  finally have hi: "a < pow2 (bp - bq + 1)" .
  have "pow2 (bp - bq - 1) = pow2 (bp - 1) / pow2 bq"
    by (simp add: pow2_diff [symmetric] algebra_simps)
  also have "\<dots> \<le> of_int p / pow2 bq" using P(1) pow2_pos [of bq] by (simp add: divide_right_mono)
  also have "\<dots> \<le> of_int p / of_int q" using Q(2) q0 p0 by (simp add: frac_le)
  finally have lo: "pow2 (bp - bq - 1) \<le> a" by (simp add: a)
  have f: "floorLog2 a = (if pow2 (bp - bq) \<le> a then bp - bq else bp - bq - 1)"
    by (simp add: floorLog2_def floorLog2At_def pq bp_def bq_def)
  show "pow2 (floorLog2 a) \<le> a" using lo by (simp add: f)
  show "a < pow2 (floorLog2 a + 1)" using hi by (simp add: f)
qed

lemma floorLog2_ge: "0 < a \<Longrightarrow> pow2 E \<le> a \<Longrightarrow> E \<le> floorLog2 a"
  using floorLog2_spec(2) [of a] pow2_less_D [of E "floorLog2 a + 1"] by simp

lemma floorLog2_le: "0 < a \<Longrightarrow> a < pow2 (E + 1) \<Longrightarrow> floorLog2 a \<le> E"
  using floorLog2_spec(1) [of a] pow2_less_D [of "floorLog2 a" "E + 1"] by simp

lemma halfEven_cases: "halfEven f s = f \<or> halfEven f s = f + 1"
  by (simp add: halfEven_def)

lemma roundHalfEven_ge: "of_int n \<le> s \<Longrightarrow> n \<le> roundHalfEven s"
proof -
  assume "of_int n \<le> s"
  then have "n \<le> \<lfloor>s\<rfloor>" by (simp only: le_floor_iff)
  then show ?thesis using halfEven_cases [of "\<lfloor>s\<rfloor>" s] by (auto simp: roundHalfEven_def)
qed

lemma roundHalfEven_le: "s \<le> of_int n \<Longrightarrow> roundHalfEven s \<le> n"
proof (cases "s = of_int n")
  case True
  then show ?thesis by (simp add: roundHalfEven_def halfEven_def)
next
  case False
  assume "s \<le> of_int n"
  with False have "s < of_int n" by simp
  then have "\<lfloor>s\<rfloor> < n" by (simp only: floor_less_iff)
  then show ?thesis using halfEven_cases [of "\<lfloor>s\<rfloor>" s] by (auto simp: roundHalfEven_def)
qed

lemma roundHalfEven_err: "\<bar>of_int (roundHalfEven s) - s\<bar> \<le> 1 / 2"
proof -
  have "of_int \<lfloor>s\<rfloor> \<le> s" "s < of_int \<lfloor>s\<rfloor> + 1" by linarith+
  then show ?thesis by (auto simp: roundHalfEven_def halfEven_def)
qed

lemma scaled_ge: "of_int k * pow2 u \<le> a \<Longrightarrow> of_int k * pow2 u \<le> scaled u a"
proof -
  assume "of_int k * pow2 u \<le> a"
  then have "of_int k \<le> a / pow2 u" using pow2_pos [of u] by (simp add: pos_le_divide_eq)
  then have "k \<le> roundHalfEven (a / pow2 u)" by (rule roundHalfEven_ge)
  then have "(of_int k :: rat) \<le> of_int (roundHalfEven (a / pow2 u))" by simp
  then show ?thesis using pow2_pos [of u] by (simp add: scaled_def)
qed

lemma scaled_le: "a \<le> of_int k * pow2 u \<Longrightarrow> scaled u a \<le> of_int k * pow2 u"
proof -
  assume "a \<le> of_int k * pow2 u"
  then have "a / pow2 u \<le> of_int k" using pow2_pos [of u] by (simp add: pos_divide_le_eq)
  then have "roundHalfEven (a / pow2 u) \<le> k" by (rule roundHalfEven_le)
  then have "(of_int (roundHalfEven (a / pow2 u)) :: rat) \<le> of_int k" by simp
  then show ?thesis using pow2_pos [of u] by (simp add: scaled_def)
qed

lemma scaled_err: "\<bar>scaled u a - a\<bar> \<le> pow2 u / 2"
proof -
  have "scaled u a - a = (of_int (roundHalfEven (a / pow2 u)) - a / pow2 u) * pow2 u"
    using pow2_pos [of u] by (simp add: scaled_def algebra_simps)
  then have "\<bar>scaled u a - a\<bar> = \<bar>of_int (roundHalfEven (a / pow2 u)) - a / pow2 u\<bar> * pow2 u"
    using pow2_pos [of u] by (simp add: abs_mult)
  also have "\<dots> \<le> (1 / 2) * pow2 u"
    using roundHalfEven_err [of "a / pow2 u"] pow2_pos [of u]
    by (intro mult_right_mono) simp_all
  finally show ?thesis by simp
qed

lemma scaled_nonneg: "0 \<le> a \<Longrightarrow> 0 \<le> scaled u a"
  using scaled_ge [of 0 u a] by simp

lemma pow2_multiple: "u \<le> v \<Longrightarrow> \<exists>k. of_int j * pow2 v = of_int k * pow2 u"
proof -
  assume "u \<le> v"
  then have "pow2 v = pow2 (v - u) * pow2 u" "0 \<le> v - u"
    by (simp_all add: pow2_add [symmetric])
  then have "of_int j * pow2 v = of_int (j * 2 ^ nat (v - u)) * pow2 u"
    by (simp add: pow2_nat)
  then show ?thesis by blast
qed

text \<open>The exponent of the last place used for \<open>a\<close>.\<close>

lemma fround_pos_eq:
  "0 < a \<Longrightarrow> fround a = signed False (scaled (max (floorLog2 a - 52) (- 1074)) a)"
  by (simp add: fround_def)

lemma fround_neg_eq:
  "a < 0 \<Longrightarrow> fround a = signed True (scaled (max (floorLog2 (- a) - 52) (- 1074)) (- a))"
  by (simp add: fround_def)

lemma fround_pos: "0 < a \<Longrightarrow> fround a = PosInf \<or> (\<exists>r. fround a = Fin r \<and> 0 \<le> r)"
  using scaled_nonneg [of a "max (floorLog2 a - 52) (- 1074)"]
  by (simp add: fround_pos_eq signed_def)

lemma fround_neg: "a < 0 \<Longrightarrow> fround a = NegInf \<or> (\<exists>r. fround a = Fin r \<and> r \<le> 0)"
  using scaled_nonneg [of "- a" "max (floorLog2 (- a) - 52) (- 1074)"]
  by (simp add: fround_neg_eq signed_def)

lemma fround_not_NaN: "fround a \<noteq> NaN"
  by (simp add: fround_def signed_def)

text \<open>
  Rounding does not cross a double \<open>c = k * 2^(E - 52)\<close> with \<open>2^E \<le> c < 2^(E + 1)\<close>.
\<close>

lemma fround_ge:
  assumes c: "pow2 E \<le> c" "c < pow2 (E + 1)" "c = of_int k * pow2 (E - 52)"
    and E: "- 1022 \<le> E" and a: "c \<le> a"
  shows "fround a = PosInf \<or> (\<exists>r. fround a = Fin r \<and> c \<le> r)"
proof -
  have a0: "0 < a" using pow2_pos [of E] c(1) a by simp
  define e where "e = floorLog2 a"
  have eE: "E \<le> e" unfolding e_def using a0 c(1) a by (intro floorLog2_ge) simp_all
  then have u: "max (e - 52) (- 1074) = e - 52" using E by simp
  have "c \<le> scaled (e - 52) a"
  proof (cases "e = E")
    case True
    then show ?thesis using scaled_ge [of k "E - 52" a] a c(3) by simp
  next
    case False
    then have "E + 1 \<le> e" using eE by simp
    then have "pow2 (E + 1) \<le> pow2 e" by (rule pow2_mono)
    moreover obtain j where j: "of_int 1 * pow2 e = of_int j * pow2 (e - 52)"
      using pow2_multiple [of "e - 52" e 1] by auto
    moreover have "pow2 e \<le> a" unfolding e_def using a0 by (rule floorLog2_spec)
    then have "of_int j * pow2 (e - 52) \<le> scaled (e - 52) a"
      using j by (intro scaled_ge) simp
    ultimately show ?thesis using c(2) by simp
  qed
  then show ?thesis using a0 u by (simp add: fround_pos_eq signed_def e_def)
qed

lemma fround_le:
  assumes c: "c < pow2 (E + 1)" "c = of_int k * pow2 (E - 52)"
    and E: "- 1022 \<le> E" "E < 1024" and a: "0 < a" "a \<le> c"
  shows "\<exists>r. fround a = Fin r \<and> 0 \<le> r \<and> r \<le> c"
proof -
  define e where "e = floorLog2 a"
  define u where "u = max (e - 52) (- 1074)"
  have "a < pow2 (E + 1)" using a c by simp
  then have "e \<le> E" unfolding e_def using a(1) by (intro floorLog2_le)
  then have "u \<le> E - 52" using E by (simp add: u_def)
  then obtain j where j: "c = of_int j * pow2 u"
    using pow2_multiple [of u "E - 52" k] c(2) by auto
  have le: "scaled u a \<le> c" using scaled_le [of a j u] a(2) j by simp
  have "pow2 (E + 1) \<le> pow2 1024" using E by (intro pow2_mono) simp
  then have "scaled u a < pow2 1024" using le c(1) by simp
  then show ?thesis using a(1) le scaled_nonneg [of a u]
    by (simp add: fround_pos_eq signed_def e_def u_def)
qed

lemma fround_err:
  assumes "fround a = Fin r"
  shows "\<bar>r - a\<bar> \<le> max (\<bar>a\<bar> / 2 ^ 53) (pow2 (- 1075))"
proof -
  have pos: "\<bar>scaled (max (floorLog2 b - 52) (- 1074)) b - b\<bar> \<le> max (b / 2 ^ 53) (pow2 (- 1075))"
    if b: "0 < b" for b
  proof -
    define u where "u = max (floorLog2 b - 52) (- 1074)"
    have "pow2 u / 2 \<le> max (b / 2 ^ 53) (pow2 (- 1075))"
    proof (cases "- 1074 \<le> floorLog2 b - 52")
      case True
      then have "pow2 u = pow2 (floorLog2 b) / pow2 52" by (simp add: u_def pow2_diff)
      also have "\<dots> \<le> b / pow2 52"
        using floorLog2_spec(1) [OF b] pow2_pos [of 52] by (simp add: divide_right_mono)
      finally have "pow2 u / 2 \<le> b / pow2 52 / 2" by simp
      also have "\<dots> = b / 2 ^ 53" by (simp add: pow2_def)
      finally show ?thesis by simp
    next
      case False
      then have "pow2 u = pow2 (- 1075 + 1)" by (simp add: u_def)
      also have "\<dots> = pow2 (- 1075) * 2" unfolding pow2_add by (simp add: pow2_def)
      finally show ?thesis by simp
    qed
    then show ?thesis using scaled_err [of u b] by (simp add: u_def)
  qed
  show ?thesis
  proof (cases "a = 0")
    case True
    then show ?thesis using assms pow2_pos [of "- 1075"] by (simp add: fround_def)
  next
    case False
    show ?thesis
    proof (cases "0 < a")
      case True
      then have "r = scaled (max (floorLog2 a - 52) (- 1074)) a"
        using assms by (simp add: fround_pos_eq signed_def split: if_splits)
      then show ?thesis using pos [OF True] True by simp
    next
      case neg: False
      then have n: "a < 0" using False by simp
      then have "r = - scaled (max (floorLog2 (- a) - 52) (- 1074)) (- a)"
        using assms by (simp add: fround_neg_eq signed_def split: if_splits)
      then have "\<bar>r - a\<bar> = \<bar>scaled (max (floorLog2 (- a) - 52) (- 1074)) (- a) - (- a)\<bar>"
        by (simp add: abs_minus_commute)
      then show ?thesis using pos [of "- a"] n by simp
    qed
  qed
qed

section \<open>Rows of the result\<close>

lemma mapE_Inr:
  "mapE f xs = Inr ys \<Longrightarrow> length ys = length xs \<and> (\<forall>i<length xs. f (xs ! i) = Inr (ys ! i))"
proof (induction xs arbitrary: ys)
  case Nil
  then show ?case by simp
next
  case (Cons x xs)
  from Cons.prems obtain y zs where y: "f x = Inr y" and zs: "mapE f xs = Inr zs"
    and ys: "ys = y # zs"
    by (auto simp: andThen_Inr)
  from Cons.IH [OF zs] have ih: "length zs = length xs" "\<forall>i<length xs. f (xs ! i) = Inr (zs ! i)"
    by simp_all
  show ?case
  proof (intro conjI allI impI)
    show "length ys = length (x # xs)" using ih(1) ys by simp
    fix i assume "i < length (x # xs)"
    then show "f ((x # xs) ! i) = Inr (ys ! i)" using y ih(2) ys by (cases i) simp_all
  qed
qed

lemma mapE_mem:
  assumes "mapE f xs = Inr ys" and "y \<in> set ys"
  shows "\<exists>i<length xs. f (xs ! i) = Inr y"
proof -
  from assms(2) obtain i where "i < length ys" "ys ! i = y" by (auto simp: in_set_conv_nth)
  then show ?thesis using mapE_Inr [OF assms(1)] by auto
qed

lemma set_insertBy: "set (insertBy cmp x xs) = insert x (set xs)"
  by (induction xs) auto

lemma set_sortBy: "set (sortBy cmp xs) = set xs"
  by (induction xs) (auto simp: sortBy_def set_insertBy)

lemma set_dedupe_subset: "set (dedupe S rs) \<subseteq> set rs"
  by (induction rs arbitrary: S) auto

lemma mappedRows_nth:
  assumes "mappedRows h xs = Inr mapped"
  shows "length mapped = length xs" and "i < length xs \<Longrightarrow> mapRow h i (xs ! i) = Inr (mapped ! i)"
proof -
  from mapE_Inr [OF assms [unfolded mappedRows_def]]
  have l: "length mapped = length xs"
    and n: "\<forall>i<length xs. (case enumerate 0 xs ! i of (i, d) \<Rightarrow> mapRow h i d) = Inr (mapped ! i)"
    by simp_all
  show "length mapped = length xs" by (rule l)
  assume "i < length xs"
  then show "mapRow h i (xs ! i) = Inr (mapped ! i)" using n by (simp add: nth_enumerate_eq)
qed

lemma pipeline_mem:
  assumes "pipeline h xs = Inr rows" and "r \<in> set rows"
  shows "\<exists>i p. i < length xs \<and> mapRow h i (xs ! i) = Inr p \<and> r = snd p"
proof -
  from assms(1) obtain mapped where m: "mappedRows h xs = Inr mapped"
    and rows: "rows = map snd (dedupe {} (sortedRows mapped))"
    by (auto simp: pipeline_def andThen_Inr)
  from assms(2) rows obtain p where p: "p \<in> set (dedupe {} (sortedRows mapped))" and r: "r = snd p"
    by auto
  from p have "p \<in> set (sortedRows mapped)" using set_dedupe_subset by blast
  then have "p \<in> set mapped" by (simp only: sortedRows_def set_sortBy)
  then obtain i where i: "i < length mapped" "mapped ! i = p" by (auto simp: in_set_conv_nth)
  then have "i < length xs" "mapRow h i (xs ! i) = Inr p" using mappedRows_nth [OF m] by simp_all
  then show ?thesis using r by blast
qed

lemma normalize_Inr:
  assumes "normalize h payload = Inr rows"
  shows "\<exists>xs. rowsIn h payload = Inr xs \<and> pipeline h xs = Inr rows"
  using assms
  by (auto simp: normalize_def normalizeMemo_def andThen_Inr)

lemma mapRow_Inr:
  assumes "mapRow h i d = Inr p"
  shows "\<exists>isoStr kpRaw ap0 f107.
           (if truthy (getProp d ''date'') then toISO h (getProp d ''date'') else Inr None)
             = Inr isoStr
         \<and> toNum h (kpField d) = Inr kpRaw \<and> toNum h (apField d) = Inr ap0
         \<and> toNum h (f107Field d) = Inr f107
         \<and> fst p = i \<and> row_date (snd p) = isoStr
         \<and> row_kp (snd p) = clamp (round1 kpRaw) 0 9
         \<and> row_ap (snd p) =
             (if ap0 = None \<and> clamp (round1 kpRaw) 0 9 \<noteq> None
              then (case clamp (round1 kpRaw) 0 9 of Some k \<Rightarrow> kpToApRounded k | None \<Rightarrow> None)
              else ap0)
         \<and> row_f107 (snd p) = f107
         \<and> row_id (snd p) = nc (getProp d ''id'') (nc (strv isoStr) (JNum (Fin (of_nat i))))
         \<and> row_note (snd p) = noteField d
         \<and> row_label (snd p) = nc (getProp d ''label'') (ensureLabel h isoStr i)"
  using assms unfolding mapRow_def andThen_Inr Let_def by fastforce

lemma normalize_mem:
  assumes "normalize h payload = Inr rows" and "r \<in> set rows"
  shows "\<exists>xs i. rowsIn h payload = Inr xs \<and> i < length xs \<and> mapRow h i (xs ! i) = Inr (i, r)"
proof -
  from normalize_Inr [OF assms(1)] obtain xs where xs: "rowsIn h payload = Inr xs"
    "pipeline h xs = Inr rows" by blast
  from pipeline_mem [OF xs(2) assms(2)] obtain i p where i: "i < length xs"
    "mapRow h i (xs ! i) = Inr p" "r = snd p" by blast
  from mapRow_Inr [OF i(2)] have "fst p = i" by blast
  then have "p = (i, r)" using i(3) by (cases p) simp
  then show ?thesis using xs(1) i by blast
qed

section \<open>Kp is clamped\<close>

lemma round1_not_NaN: "round1 n \<noteq> Some NaN"
  by (auto simp: round1_def fround_not_NaN split: option.splits jsnum.splits)

lemma clamp_range:
  assumes "clamp (round1 n) 0 9 = Some x"
  shows "\<exists>k. x = Fin k \<and> 0 \<le> k \<and> k \<le> 9"
proof -
  from assms obtain y where y: "round1 n = Some y" "x = mathMin 9 (mathMax 0 y)"
    by (auto simp: clamp_def split: option.splits)
  then have "y \<noteq> NaN" using round1_not_NaN [of n] by auto
  then show ?thesis using y(2) by (cases y) auto
qed

lemma ninety_double: "pow2 6 \<le> 90" "90 < pow2 (6 + 1)" "90 = of_int (90 * 2 ^ 46) * pow2 (6 - 52)"
  by code_simp+

lemma nine_double: "pow2 3 \<le> 9" "9 < pow2 (3 + 1)" "9 = of_int (9 * 2 ^ 49) * pow2 (3 - 52)"
  by code_simp+

lemma clamp_high: "x = PosInf \<or> (\<exists>r. x = Fin r \<and> 9 \<le> r) \<Longrightarrow> mathMin 9 (mathMax 0 x) = Fin 9"
  by auto

lemma clamp_low: "x = NegInf \<or> (\<exists>r. x = Fin r \<and> r \<le> 0) \<Longrightarrow> mathMin 9 (mathMax 0 x) = Fin 0"
  by auto

lemma round1_high:
  assumes "9 < q"
  shows "\<exists>x. round1 (Some q) = Some x \<and> (x = PosInf \<or> (\<exists>r. x = Fin r \<and> 9 \<le> r))"
proof -
  have "90 \<le> q * 10" using assms by simp
  from fround_ge [OF ninety_double _ this]
  have "fround (q * 10) = PosInf \<or> (\<exists>p. fround (q * 10) = Fin p \<and> 90 \<le> p)" by simp
  then show ?thesis
  proof
    assume "fround (q * 10) = PosInf"
    then show ?thesis by (simp add: round1_def)
  next
    assume "\<exists>p. fround (q * 10) = Fin p \<and> 90 \<le> p"
    then obtain p where p: "fround (q * 10) = Fin p" "90 \<le> p" by blast
    then have "of_int 90 \<le> p + 1 / 2" by simp
    then have "90 \<le> mathRound p" unfolding mathRound_def by (simp only: le_floor_iff)
    then have "(90::rat) \<le> of_int (mathRound p)" by linarith
    then have "9 \<le> (of_int (mathRound p) :: rat) / 10" by simp
    from fround_ge [OF nine_double _ this]
    have "fround (of_int (mathRound p) / 10) = PosInf
        \<or> (\<exists>r. fround (of_int (mathRound p) / 10) = Fin r \<and> 9 \<le> r)" by simp
    then show ?thesis using p(1) by (simp add: round1_def)
  qed
qed

lemma round1_low:
  assumes "q < 0"
  shows "\<exists>x. round1 (Some q) = Some x \<and> (x = NegInf \<or> (\<exists>r. x = Fin r \<and> r \<le> 0))"
proof -
  have "q * 10 < 0" using assms by simp
  from fround_neg [OF this] show ?thesis
  proof
    assume "fround (q * 10) = NegInf"
    then show ?thesis by (simp add: round1_def)
  next
    assume "\<exists>p. fround (q * 10) = Fin p \<and> p \<le> 0"
    then obtain p where p: "fround (q * 10) = Fin p" "p \<le> 0" by blast
    then have "p + 1 / 2 < of_int 1" by simp
    then have "mathRound p < 1" unfolding mathRound_def by (simp only: floor_less_iff)
    then have m: "mathRound p \<le> 0" by simp
    have "fround (of_int (mathRound p) / 10) = NegInf
        \<or> (\<exists>r. fround (of_int (mathRound p) / 10) = Fin r \<and> r \<le> 0)"
    proof (cases "mathRound p = 0")
      case True
      then show ?thesis by (simp add: fround_def)
    next
      case False
      then have "(of_int (mathRound p) :: rat) / 10 < 0" using m by simp
      then show ?thesis by (rule fround_neg)
    qed
    then show ?thesis using p(1) by (simp add: round1_def)
  qed
qed

lemma clamp_round1_high: "9 < q \<Longrightarrow> clamp (round1 (Some q)) 0 9 = Some (Fin 9)"
  using round1_high [of q] clamp_high by (auto simp: clamp_def)

lemma clamp_round1_low: "q < 0 \<Longrightarrow> clamp (round1 (Some q)) 0 9 = Some (Fin 0)"
  using round1_low [of q] clamp_low by (auto simp: clamp_def)

text \<open>
  Claim C2. Whenever \<^verbatim>\<open>normalize\<close> returns, every row of the result has \<open>kp\<close> either
  \<^verbatim>\<open>null\<close> or a number within \<open>[0, 9]\<close>, never \<^verbatim>\<open>NaN\<close> or an infinity. The row is the
  image of a record of \<open>rowsIn\<close>, its \<open>kp\<close> is the parsed value rounded and clamped, and
  a parsed value above 9 is emitted as 9, one below 0 as 0: it is neither passed through
  nor made \<^verbatim>\<open>null\<close>.
\<close>

theorem normalize_kp_clamped:
  assumes "normalize h payload = Inr rows" and "r \<in> set rows"
  shows "(row_kp r = None \<or> (\<exists>k. row_kp r = Some (Fin k) \<and> 0 \<le> k \<and> k \<le> 9))
       \<and> (\<exists>xs i kpRaw. rowsIn h payload = Inr xs \<and> i < length xs
            \<and> mapRow h i (xs ! i) = Inr (i, r)
            \<and> toNum h (kpField (xs ! i)) = Inr kpRaw
            \<and> row_kp r = clamp (round1 kpRaw) 0 9
            \<and> (\<forall>q. kpRaw = Some q \<longrightarrow>
                  (9 < q \<longrightarrow> row_kp r = Some (Fin 9)) \<and> (q < 0 \<longrightarrow> row_kp r = Some (Fin 0))))"
proof -
  from normalize_mem [OF assms] obtain xs i where xs: "rowsIn h payload = Inr xs"
    and i: "i < length xs" "mapRow h i (xs ! i) = Inr (i, r)" by blast
  from mapRow_Inr [OF i(2)] obtain kpRaw where raw: "toNum h (kpField (xs ! i)) = Inr kpRaw"
    and kp: "row_kp r = clamp (round1 kpRaw) 0 9" by auto
  have range: "row_kp r = None \<or> (\<exists>k. row_kp r = Some (Fin k) \<and> 0 \<le> k \<and> k \<le> 9)"
  proof (cases "row_kp r")
    case None
    then show ?thesis by simp
  next
    case (Some x)
    then have "clamp (round1 kpRaw) 0 9 = Some x" using kp by simp
    from clamp_range [OF this] show ?thesis using Some by simp
  qed
  have out: "\<forall>q. kpRaw = Some q \<longrightarrow>
                  (9 < q \<longrightarrow> row_kp r = Some (Fin 9)) \<and> (q < 0 \<longrightarrow> row_kp r = Some (Fin 0))"
    using kp clamp_round1_high clamp_round1_low by auto
  show ?thesis using xs i raw kp range out by blast
qed

theorem normalize_kp_clamped_witness:
  "normalize exampleHost (JArr [kp12Record]) = Inr [kp12Row] \<and> kp12Row \<in> set [kp12Row]
   \<and> (row_kp kp12Row = None \<or> (\<exists>k. row_kp kp12Row = Some (Fin k) \<and> 0 \<le> k \<and> k \<le> 9))"
proof -
  have h1: "normalize exampleHost (JArr [kp12Record]) = Inr [kp12Row]" by code_simp
  have h2: "kp12Row \<in> set [kp12Row]" by simp
  from normalize_kp_clamped [OF h1 h2]
  have "row_kp kp12Row = None \<or> (\<exists>k. row_kp kp12Row = Some (Fin k) \<and> 0 \<le> k \<and> k \<le> 9)"
    by (rule conjunct1)
  with h1 h2 show ?thesis by blast
qed

section \<open>Kp is rounded to a tenth\<close>

lemma mathRound_nearest: "of_int (mathRound p) \<le> p + 1 / 2 \<and> p + 1 / 2 < of_int (mathRound p) + 1"
  unfolding mathRound_def by linarith

lemma nearest_unique:
  fixes p :: rat
  assumes "of_int m \<le> p + 1 / 2" "p + 1 / 2 < of_int m + 1"
  shows "m = mathRound p"
  unfolding mathRound_def using assms by (simp add: floor_unique)

lemma fround_nine: "fround 9 = Fin 9"
  by code_simp

lemma tenth_in_range:
  assumes "0 \<le> m" "m \<le> 90"
  shows "\<exists>k. fround (of_int m / 10) = Fin k \<and> 0 \<le> k \<and> k \<le> 9"
proof (cases "m = 0")
  case True
  then show ?thesis by (simp add: fround_def)
next
  case False
  then have "(0::rat) < of_int m / 10" using assms(1) by simp
  moreover have "(of_int m :: rat) \<le> 90" using assms(2) by linarith
  then have "(of_int m :: rat) / 10 \<le> 9" by simp
  ultimately show ?thesis using fround_le [OF nine_double(2,3), of "of_int m / 10"] by simp
qed

lemma tenth_above:
  assumes "90 < m"
  shows "mathMin 9 (mathMax 0 (fround (of_int m / 10))) = Fin 9"
proof -
  have "(90::rat) \<le> of_int m" using assms by linarith
  then have "9 \<le> (of_int m :: rat) / 10" by simp
  from fround_ge [OF nine_double _ this] show ?thesis by (intro clamp_high) simp
qed

lemma tenth_below:
  assumes "m < 0"
  shows "mathMin 9 (mathMax 0 (fround (of_int m / 10))) = Fin 0"
proof -
  have "(of_int m :: rat) / 10 < 0" using assms by simp
  from fround_neg [OF this] show ?thesis by (intro clamp_low)
qed

lemma clamp_round1_Some:
  assumes "clamp (round1 kpRaw) 0 9 = Some x"
  shows "\<exists>q. kpRaw = Some q
           \<and> ((fround (q * 10) = PosInf \<and> x = Fin 9) \<or> (fround (q * 10) = NegInf \<and> x = Fin 0)
              \<or> (\<exists>p. fround (q * 10) = Fin p
                    \<and> x = mathMin 9 (mathMax 0 (fround (of_int (mathRound p) / 10)))))"
proof -
  from assms obtain q where q: "kpRaw = Some q"
    by (cases kpRaw) (simp_all add: clamp_def round1_def)
  show ?thesis
  proof (cases "fround (q * 10)")
    case (Fin p)
    then show ?thesis using assms q by (auto simp: clamp_def round1_def)
  next
    case NaN
    then show ?thesis using fround_not_NaN by blast
  next
    case PosInf
    then show ?thesis using assms q by (auto simp: clamp_def round1_def)
  next
    case NegInf
    then show ?thesis using assms q by (auto simp: clamp_def round1_def)
  qed
qed

lemma clamped_tenth:
  "(0 \<le> m \<and> m \<le> 90 \<longrightarrow> mathMin 9 (mathMax 0 (fround (of_int m / 10))) = fround (of_int m / 10))
   \<and> (90 < m \<longrightarrow> mathMin 9 (mathMax 0 (fround (of_int m / 10))) = Fin 9)
   \<and> (m < 0 \<longrightarrow> mathMin 9 (mathMax 0 (fround (of_int m / 10))) = Fin 0)"
proof (intro conjI impI)
  assume "0 \<le> m \<and> m \<le> 90"
  then obtain k where "fround (of_int m / 10) = Fin k" "0 \<le> k" "k \<le> 9"
    using tenth_in_range [of m] by blast
  then show "mathMin 9 (mathMax 0 (fround (of_int m / 10))) = fround (of_int m / 10)" by simp
qed (simp_all add: tenth_above tenth_below)

lemma clamped_tenth_ex:
  "\<exists>n. 0 \<le> n \<and> n \<le> 90 \<and> mathMin 9 (mathMax 0 (fround (of_int m / 10))) = fround (of_int n / 10)"
proof -
  consider "m < 0" | "0 \<le> m \<and> m \<le> 90" | "90 < m" by linarith
  then show ?thesis
  proof cases
    case 1
    then have "mathMin 9 (mathMax 0 (fround (of_int m / 10))) = fround (of_int 0 / 10)"
      using clamped_tenth [of m] by (simp add: fround_def)
    then show ?thesis by (intro exI [of _ 0]) simp
  next
    case 2
    then show ?thesis using clamped_tenth [of m] by (intro exI [of _ m]) simp
  next
    case 3
    then have "mathMin 9 (mathMax 0 (fround (of_int m / 10))) = fround (of_int 90 / 10)"
      using clamped_tenth [of m] by (simp add: fround_nine)
    then show ?thesis by (intro exI [of _ 90]) simp
  qed
qed

lemma nearest_err:
  fixes p :: rat
  assumes "of_int m \<le> p + 1 / 2" "p + 1 / 2 < of_int m + 1" "\<bar>p - t\<bar> \<le> e"
  shows "\<bar>of_int m - t\<bar> \<le> 1 / 2 + e"
  using assms by linarith

text \<open>
  Claim C10 says that every \<open>kp\<close> of the result is the parsed value rounded to the
  nearest tenth. The code computes \<^verbatim>\<open>Math.round(n * 10) / 10\<close> in doubles, and the
  product is rounded before \<^verbatim>\<open>Math.round\<close> sees it. On \<^verbatim>\<open>[{kp: 0.44999999999999996}]\<close>,
  the largest double below \<open>0.45\<close>, the product is the double \<open>4.5\<close> and the row has
  \<open>kp = 0.5\<close>, although the input is nearer to \<open>0.4\<close>.
\<close>

theorem kp_not_nearest_tenth:
  "normalize exampleHost (JArr [JObj [(''kp'', JNum (Fin belowHalfTenth))]])
     = Inr [kpRow 0 (Fin (1 / 2)) 3]
   \<and> fround belowHalfTenth = Fin belowHalfTenth
   \<and> fround (belowHalfTenth * 10) = Fin (45 / 10)
   \<and> \<bar>belowHalfTenth - 4 / 10\<bar> < \<bar>belowHalfTenth - 5 / 10\<bar>"
proof (intro conjI)
  show "normalize exampleHost (JArr [JObj [(''kp'', JNum (Fin belowHalfTenth))]])
     = Inr [kpRow 0 (Fin (1 / 2)) 3]" by code_simp
  show "fround belowHalfTenth = Fin belowHalfTenth" by code_simp
  show "fround (belowHalfTenth * 10) = Fin (45 / 10)" by code_simp
  show "\<bar>belowHalfTenth - 4 / 10\<bar> < \<bar>belowHalfTenth - 5 / 10\<bar>" by code_simp
qed

text \<open>
  Claim C10, amended. Whenever \<^verbatim>\<open>normalize\<close> returns, a \<open>kp\<close> that is not \<^verbatim>\<open>null\<close> is
  the double nearest to \<open>n / 10\<close> for a whole number \<open>n\<close> from 0 to 90, so it prints with
  at most one fractional digit. It comes from the parsed value \<open>q\<close> of a record of
  \<open>rowsIn\<close>: with \<open>p\<close> the double nearest to \<open>q * 10\<close>, which differs from \<open>q * 10\<close> by at
  most the relative error \<open>2^-53\<close> (or \<open>2^-1075\<close>), and \<open>m\<close> the integer nearest to \<open>p\<close>,
  a half going up, \<open>kp\<close> is the double nearest to \<open>m / 10\<close>, clamped: that double itself
  when \<open>0 \<le> m \<le> 90\<close>, 9 above and 0 below. So \<open>m / 10\<close> is a tenth nearest to \<open>q\<close> up to
  the rounding of the product. When the product overflows, \<open>kp\<close> is 9 or 0.
\<close>

theorem normalize_kp_one_decimal:
  assumes "normalize h payload = Inr rows" and "r \<in> set rows" and "row_kp r = Some x"
  shows "(\<exists>n. 0 \<le> n \<and> n \<le> 90 \<and> x = fround (of_int n / 10))
       \<and> (\<exists>xs i q. rowsIn h payload = Inr xs \<and> i < length xs
            \<and> mapRow h i (xs ! i) = Inr (i, r)
            \<and> toNum h (kpField (xs ! i)) = Inr (Some q)
            \<and> ((fround (q * 10) = PosInf \<and> x = Fin 9)
               \<or> (fround (q * 10) = NegInf \<and> x = Fin 0)
               \<or> (\<exists>p m. fround (q * 10) = Fin p
                    \<and> \<bar>p - q * 10\<bar> \<le> max (\<bar>q * 10\<bar> / 2 ^ 53) (pow2 (- 1075))
                    \<and> of_int m \<le> p + 1 / 2 \<and> p + 1 / 2 < of_int m + 1
                    \<and> \<bar>of_int m - q * 10\<bar> \<le> 1 / 2 + max (\<bar>q * 10\<bar> / 2 ^ 53) (pow2 (- 1075))
                    \<and> x = mathMin 9 (mathMax 0 (fround (of_int m / 10)))
                    \<and> (0 \<le> m \<and> m \<le> 90 \<longrightarrow> x = fround (of_int m / 10))
                    \<and> (90 < m \<longrightarrow> x = Fin 9) \<and> (m < 0 \<longrightarrow> x = Fin 0))))"
proof -
  from normalize_mem [OF assms(1,2)] obtain xs i where xs: "rowsIn h payload = Inr xs"
    and i: "i < length xs" "mapRow h i (xs ! i) = Inr (i, r)" by blast
  from mapRow_Inr [OF i(2)] obtain kpRaw where raw: "toNum h (kpField (xs ! i)) = Inr kpRaw"
    and kp: "row_kp r = clamp (round1 kpRaw) 0 9" by auto
  from kp assms(3) have "clamp (round1 kpRaw) 0 9 = Some x" by simp
  from clamp_round1_Some [OF this] obtain q where q: "kpRaw = Some q"
    and c: "(fround (q * 10) = PosInf \<and> x = Fin 9) \<or> (fround (q * 10) = NegInf \<and> x = Fin 0)
              \<or> (\<exists>p. fround (q * 10) = Fin p
                    \<and> x = mathMin 9 (mathMax 0 (fround (of_int (mathRound p) / 10))))"
    by blast
  let ?e = "max (\<bar>q * 10\<bar> / 2 ^ 53) (pow2 (- 1075))"
  let ?C = "\<lambda>q p m. fround (q * 10) = Fin p
                    \<and> \<bar>p - q * 10\<bar> \<le> max (\<bar>q * 10\<bar> / 2 ^ 53) (pow2 (- 1075))
                    \<and> of_int m \<le> p + 1 / 2 \<and> p + 1 / 2 < of_int m + 1
                    \<and> \<bar>of_int m - q * 10\<bar> \<le> 1 / 2 + max (\<bar>q * 10\<bar> / 2 ^ 53) (pow2 (- 1075))
                    \<and> x = mathMin 9 (mathMax 0 (fround (of_int m / 10)))
                    \<and> (0 \<le> m \<and> m \<le> 90 \<longrightarrow> x = fround (of_int m / 10))
                    \<and> (90 < m \<longrightarrow> x = Fin 9) \<and> (m < 0 \<longrightarrow> x = Fin 0)"
  let ?P = "\<lambda>xs i q. rowsIn h payload = Inr xs \<and> i < length xs
            \<and> mapRow h i (xs ! i) = Inr (i, r)
            \<and> toNum h (kpField (xs ! i)) = Inr (Some q)
            \<and> ((fround (q * 10) = PosInf \<and> x = Fin 9)
               \<or> (fround (q * 10) = NegInf \<and> x = Fin 0)
               \<or> (\<exists>p m. ?C q p m))"
  let ?B = "\<lambda>p m. fround (q * 10) = Fin p
                    \<and> \<bar>p - q * 10\<bar> \<le> ?e
                    \<and> of_int m \<le> p + 1 / 2 \<and> p + 1 / 2 < of_int m + 1
                    \<and> \<bar>of_int m - q * 10\<bar> \<le> 1 / 2 + ?e
                    \<and> x = mathMin 9 (mathMax 0 (fround (of_int m / 10)))
                    \<and> (0 \<le> m \<and> m \<le> 90 \<longrightarrow> x = fround (of_int m / 10))
                    \<and> (90 < m \<longrightarrow> x = Fin 9) \<and> (m < 0 \<longrightarrow> x = Fin 0)"
  have tenth: "\<exists>n. 0 \<le> n \<and> n \<le> 90 \<and> x = fround (of_int n / 10)"
    and body: "(fround (q * 10) = PosInf \<and> x = Fin 9) \<or> (fround (q * 10) = NegInf \<and> x = Fin 0)
               \<or> (\<exists>p m. ?B p m)"
  proof -
    from c consider (hi) "fround (q * 10) = PosInf" "x = Fin 9"
      | (lo) "fround (q * 10) = NegInf" "x = Fin 0"
      | (fin) p where "fround (q * 10) = Fin p"
          "x = mathMin 9 (mathMax 0 (fround (of_int (mathRound p) / 10)))"
      by blast
    then have "(\<exists>n. 0 \<le> n \<and> n \<le> 90 \<and> x = fround (of_int n / 10))
        \<and> ((fround (q * 10) = PosInf \<and> x = Fin 9) \<or> (fround (q * 10) = NegInf \<and> x = Fin 0)
               \<or> (\<exists>p m. ?B p m))"
    proof cases
      case hi
      have "x = fround (of_int 90 / 10)" using hi(2) by (simp add: fround_nine)
      then have "\<exists>n. 0 \<le> n \<and> n \<le> 90 \<and> x = fround (of_int n / 10)"
        by (intro exI [of _ 90]) simp
      then show ?thesis using hi by blast
    next
      case lo
      have "x = fround (of_int 0 / 10)" using lo(2) by (simp add: fround_def)
      then have "\<exists>n. 0 \<le> n \<and> n \<le> 90 \<and> x = fround (of_int n / 10)"
        by (intro exI [of _ 0]) simp
      then show ?thesis using lo by blast
    next
      case fin
      define m where "m = mathRound p"
      have n: "of_int m \<le> p + 1 / 2" "p + 1 / 2 < of_int m + 1"
        using mathRound_nearest [of p] by (simp_all add: m_def)
      have e: "\<bar>p - q * 10\<bar> \<le> ?e" using fin(1) by (rule fround_err)
      have e2: "\<bar>of_int m - q * 10\<bar> \<le> 1 / 2 + ?e" using n e by (rule nearest_err)
      have x: "x = mathMin 9 (mathMax 0 (fround (of_int m / 10)))" using fin(2) by (simp add: m_def)
      have cl: "(0 \<le> m \<and> m \<le> 90 \<longrightarrow> x = fround (of_int m / 10))
          \<and> (90 < m \<longrightarrow> x = Fin 9) \<and> (m < 0 \<longrightarrow> x = Fin 0)"
        using clamped_tenth [of m] x by simp
      have "?B p m" using fin(1) e n e2 x cl by blast
      moreover have "\<exists>n. 0 \<le> n \<and> n \<le> 90 \<and> x = fround (of_int n / 10)"
        using clamped_tenth_ex [of m] x by simp
      ultimately show ?thesis by blast
    qed
    then show "\<exists>n. 0 \<le> n \<and> n \<le> 90 \<and> x = fround (of_int n / 10)"
      and "(fround (q * 10) = PosInf \<and> x = Fin 9) \<or> (fround (q * 10) = NegInf \<and> x = Fin 0)
               \<or> (\<exists>p m. ?B p m)" by blast+
  qed
  have "toNum h (kpField (xs ! i)) = Inr (Some q)" using raw q by simp
  then have "?P xs i q" using xs i body by blast
  then have "\<exists>xs i q. ?P xs i q" by blast
  with tenth show ?thesis by (rule conjI)
qed

theorem normalize_kp_one_decimal_witness:
  "normalize exampleHost kpPairPayload
     = Inr [kpRow 0 (fround (32 / 10)) 15, kpRow 1 (fround (31 / 10)) 15]
   \<and> kpRow 0 (fround (32 / 10)) 15
       \<in> set [kpRow 0 (fround (32 / 10)) 15, kpRow 1 (fround (31 / 10)) 15]
   \<and> row_kp (kpRow 0 (fround (32 / 10)) 15) = Some (fround (32 / 10))
   \<and> (\<exists>n. 0 \<le> n \<and> n \<le> 90 \<and> fround (32 / 10) = fround (of_int n / 10))"
proof -
  have h1: "normalize exampleHost kpPairPayload
     = Inr [kpRow 0 (fround (32 / 10)) 15, kpRow 1 (fround (31 / 10)) 15]" by code_simp
  have h2: "kpRow 0 (fround (32 / 10)) 15
       \<in> set [kpRow 0 (fround (32 / 10)) 15, kpRow 1 (fround (31 / 10)) 15]" by simp
  have h3: "row_kp (kpRow 0 (fround (32 / 10)) 15) = Some (fround (32 / 10))"
    by (simp add: kpRow_def)
  from normalize_kp_one_decimal [OF h1 h2 h3]
  have "\<exists>n. 0 \<le> n \<and> n \<le> 90 \<and> fround (32 / 10) = fround (of_int n / 10)" by (rule conjunct1)
  with h1 h2 h3 show ?thesis by blast
qed

section \<open>Ap filled from Kp\<close>

lemma kpToAp_table:
  "kpToAp n = (if n = 0 then Some 0 else if n = 1 then Some 3 else if n = 2 then Some 7
     else if n = 3 then Some 15 else if n = 4 then Some 27 else if n = 5 then Some 48
     else if n = 6 then Some 80 else if n = 7 then Some 140 else if n = 8 then Some 240
     else if n = 9 then Some 400 else None)"
  by (simp add: kpToAp_def)

lemma kpToAp_defined: "kpToAp n \<noteq> None \<longleftrightarrow> 0 \<le> n \<and> n \<le> 9"
proof -
  have "0 \<le> n \<and> n \<le> 9 \<longleftrightarrow> n \<in> {0, 1, 2, 3, 4, 5, 6, 7, 8, 9}"
    by (simp only: insert_iff empty_iff) arith
  then show ?thesis by (simp add: kpToAp_table)
qed

lemma mathRound_range: "0 \<le> k \<Longrightarrow> k \<le> 9 \<Longrightarrow> 0 \<le> mathRound k \<and> mathRound k \<le> 9"
proof -
  assume a: "0 \<le> k" "k \<le> 9"
  then have "of_int 0 \<le> k + 1 / 2" by simp
  then have lo: "0 \<le> \<lfloor>k + 1 / 2\<rfloor>" by (simp only: le_floor_iff)
  from a have "k + 1 / 2 < of_int 10" by simp
  then have "\<lfloor>k + 1 / 2\<rfloor> < 10" by (simp only: floor_less_iff)
  with lo show ?thesis by (simp add: mathRound_def)
qed

lemma mathRound_above: "9 < mathRound q \<Longrightarrow> 9 < q"
proof -
  assume "9 < mathRound q"
  then have "10 \<le> \<lfloor>q + 1 / 2\<rfloor>" by (simp add: mathRound_def)
  then have "of_int 10 \<le> q + 1 / 2" by (simp only: le_floor_iff)
  then show ?thesis by simp
qed

lemma mathRound_below: "mathRound q < 0 \<Longrightarrow> q < 0"
proof -
  assume "mathRound q < 0"
  then have "\<lfloor>q + 1 / 2\<rfloor> < 0" by (simp add: mathRound_def)
  then have "q + 1 / 2 < of_int 0" by (simp only: floor_less_iff)
  then show ?thesis by simp
qed

lemma mathRound_nine: "mathRound 9 = 9" and mathRound_zero: "mathRound 0 = 0"
  by code_simp+

text \<open>What \<^verbatim>\<open>normalize\<close> reads from a row that \<^verbatim>\<open>massage\<close> made.\<close>

lemma toNum_numv: "toNum h (numv n) = Inr n"
  by (cases n) (simp_all add: toNum_def numv_def nullish_def)

lemma toNum_JUndef: "toNum h JUndef = Inr None"
  by (simp add: toNum_def nullish_def)

lemma apField_rowObj: "toNum h (apField (rowObj m)) = Inr (row_ap m)"
  by (cases "row_ap m") (simp_all add: apField_def rowObj_def nc_def nullish_def numv_def toNum_def)

lemma kpField_rowObj:
  "row_kp m = map_option Fin kpVal \<Longrightarrow> toNum h (kpField (rowObj m)) = Inr kpVal"
  by (cases kpVal)
     (simp_all add: kpField_def rowObj_def nc_def nullish_def jsnumv_def toNum_def)

lemma massageRow_Inr:
  assumes "massageRow h i x = Inr m"
  shows "\<exists>kpVal ap0. toNum h (kpField (nc x (JObj []))) = Inr kpVal
           \<and> toNum h (apField (nc x (JObj []))) = Inr ap0
           \<and> row_kp m = map_option Fin kpVal
           \<and> row_ap m = (if ap0 = None \<and> kpVal \<noteq> None
                          then (case kpVal of Some k \<Rightarrow> kpToAp (mathRound k) | None \<Rightarrow> None)
                          else ap0)"
  using assms unfolding massageRow_def andThen_Inr Let_def by fastforce

lemma massage_nth:
  assumes "massage h arr = Inr ms"
  shows "length ms = length arr" and "i < length arr \<Longrightarrow> massageRow h i (arr ! i) = Inr (ms ! i)"
proof -
  from mapE_Inr [OF assms [unfolded massage_def]]
  have l: "length ms = length arr"
    and n: "\<forall>i<length arr. (case enumerate 0 arr ! i of (i, x) \<Rightarrow> massageRow h i x) = Inr (ms ! i)"
    by simp_all
  show "length ms = length arr" by (rule l)
  assume "i < length arr"
  then show "massageRow h i (arr ! i) = Inr (ms ! i)" using n by (simp add: nth_enumerate_eq)
qed

lemma rowsIn_array: "isArray payload \<Longrightarrow> rowsIn h payload = Inr xs \<Longrightarrow> xs = elems payload"
  by (simp add: rowsIn_def)

lemma rowsIn_extracted:
  assumes "\<not> isArray payload" and "rowsIn h payload = Inr xs" and "i < length xs"
  shows "\<exists>arr m. dayRecords h payload = Inr (Some arr) \<and> i < length arr
           \<and> massageRow h i (arr ! i) = Inr m \<and> xs ! i = rowObj m"
proof -
  from assms(1,2) obtain ms where ms: "extractForecast h payload = Inr ms" "xs = map rowObj ms"
    by (auto simp: rowsIn_def andThen_Inr)
  from ms(1) obtain recs where recs: "dayRecords h payload = Inr recs"
    and c: "(case recs of None \<Rightarrow> Inr [] | Some arr \<Rightarrow> massage h arr) = Inr ms"
    by (auto simp: extractForecast_def andThen_Inr)
  show ?thesis
  proof (cases recs)
    case None
    then have "ms = []" using c by simp
    then show ?thesis using ms(2) assms(3) by simp
  next
    case (Some arr)
    then have m: "massage h arr = Inr ms" using c by simp
    have l: "i < length arr" using massage_nth(1) [OF m] ms(2) assms(3) by simp
    then have "massageRow h i (arr ! i) = Inr (ms ! i)" using massage_nth(2) [OF m] by simp
    moreover have "xs ! i = rowObj (ms ! i)" using ms(2) assms(3) by simp
    ultimately show ?thesis using recs Some l by blast
  qed
qed

text \<open>The \<open>ap\<close> of a mapped row.\<close>

lemma mapRow_fill:
  assumes "mapRow h i d = Inr (i, r)"
  shows "row_kp r = None \<or> row_ap r \<noteq> None"
    and "toNum h (apField d) = Inr None \<Longrightarrow> toNum h (kpField d) = Inr (Some q) \<Longrightarrow>
           \<exists>k. row_kp r = Some (Fin k) \<and> Some (Fin k) = clamp (round1 (Some q)) 0 9
             \<and> 0 \<le> mathRound k \<and> mathRound k \<le> 9 \<and> row_ap r = kpToAp (mathRound k)"
    and "toNum h (apField d) = Inr (Some a) \<Longrightarrow> row_ap r = Some a"
    and "toNum h (kpField d) = Inr kpRaw \<Longrightarrow> row_kp r = clamp (round1 kpRaw) 0 9"
proof -
  from mapRow_Inr [OF assms] obtain kpRaw0 ap0 where raw: "toNum h (kpField d) = Inr kpRaw0"
    "toNum h (apField d) = Inr ap0"
    and kp: "row_kp r = clamp (round1 kpRaw0) 0 9"
    and ap: "row_ap r = (if ap0 = None \<and> clamp (round1 kpRaw0) 0 9 \<noteq> None
              then (case clamp (round1 kpRaw0) 0 9 of Some k \<Rightarrow> kpToApRounded k | None \<Rightarrow> None)
              else ap0)"
    by auto
  have filled: "\<exists>k. row_kp r = Some (Fin k) \<and> 0 \<le> mathRound k \<and> mathRound k \<le> 9
      \<and> (ap0 = None \<longrightarrow> row_ap r = kpToAp (mathRound k))" if "row_kp r \<noteq> None"
  proof -
    from that obtain x where x: "clamp (round1 kpRaw0) 0 9 = Some x" using kp by auto
    from clamp_range [OF x] obtain k where k: "x = Fin k" "0 \<le> k" "k \<le> 9" by blast
    then show ?thesis using kp ap x mathRound_range [of k] by auto
  qed
  show "row_kp r = None \<or> row_ap r \<noteq> None"
  proof (cases "row_kp r = None")
    case False
    from filled [OF False] obtain k where k: "0 \<le> mathRound k" "mathRound k \<le> 9"
      "ap0 = None \<longrightarrow> row_ap r = kpToAp (mathRound k)" by blast
    show ?thesis
    proof (cases ap0)
      case None
      then show ?thesis using k kpToAp_defined [of "mathRound k"] by simp
    next
      case (Some a)
      then show ?thesis using ap by simp
    qed
  qed simp
  show "\<exists>k. row_kp r = Some (Fin k) \<and> Some (Fin k) = clamp (round1 (Some q)) 0 9
             \<and> 0 \<le> mathRound k \<and> mathRound k \<le> 9 \<and> row_ap r = kpToAp (mathRound k)"
    if "toNum h (apField d) = Inr None" "toNum h (kpField d) = Inr (Some q)"
  proof -
    have q: "kpRaw0 = Some q" "ap0 = None" using that raw by simp_all
    have "clamp (round1 (Some q)) 0 9 \<noteq> None" by (simp add: clamp_def round1_def)
    then have "row_kp r \<noteq> None" using kp q by simp
    from filled [OF this] show ?thesis using q kp by auto
  qed
  show "row_ap r = Some a" if "toNum h (apField d) = Inr (Some a)"
    using that raw ap by simp
  show "row_kp r = clamp (round1 kpRaw) 0 9" if "toNum h (kpField d) = Inr kpRaw"
    using that raw kp by simp
qed

lemma fill_outside:
  assumes "Some (Fin k) = clamp (round1 (Some q)) 0 9" and "row_ap r = kpToAp (mathRound k)"
  shows "9 < q \<longrightarrow> row_ap r = Some 400" and "q < 0 \<longrightarrow> row_ap r = Some 0"
proof -
  show "9 < q \<longrightarrow> row_ap r = Some 400"
  proof
    assume "9 < q"
    then have "k = 9" using clamp_round1_high [of q] assms(1) by simp
    then show "row_ap r = Some 400" using assms(2) by (simp add: mathRound_nine kpToAp_table)
  qed
  show "q < 0 \<longrightarrow> row_ap r = Some 0"
  proof
    assume "q < 0"
    then have "k = 0" using clamp_round1_low [of q] assms(1) by simp
    then show "row_ap r = Some 0" using assms(2) by (simp add: mathRound_zero kpToAp_table)
  qed
qed

lemma array_fill:
  assumes "mapRow h i d = Inr (i, r)"
  shows "\<forall>q. toNum h (apField d) = Inr None \<and> toNum h (kpField d) = Inr (Some q)
           \<longrightarrow> (\<exists>k. row_kp r = Some (Fin k) \<and> Some (Fin k) = clamp (round1 (Some q)) 0 9
                  \<and> 0 \<le> mathRound k \<and> mathRound k \<le> 9
                  \<and> row_ap r = kpToAp (mathRound k)
                  \<and> (9 < q \<longrightarrow> row_ap r = Some 400) \<and> (q < 0 \<longrightarrow> row_ap r = Some 0))"
proof (intro allI impI)
  fix q assume a: "toNum h (apField d) = Inr None \<and> toNum h (kpField d) = Inr (Some q)"
  then obtain k where k: "row_kp r = Some (Fin k)" "Some (Fin k) = clamp (round1 (Some q)) 0 9"
    "0 \<le> mathRound k" "mathRound k \<le> 9" "row_ap r = kpToAp (mathRound k)"
    using mapRow_fill(2) [OF assms, of q] by blast
  then show "\<exists>k. row_kp r = Some (Fin k) \<and> Some (Fin k) = clamp (round1 (Some q)) 0 9
                  \<and> 0 \<le> mathRound k \<and> mathRound k \<le> 9
                  \<and> row_ap r = kpToAp (mathRound k)
                  \<and> (9 < q \<longrightarrow> row_ap r = Some 400) \<and> (q < 0 \<longrightarrow> row_ap r = Some 0)"
    using fill_outside [OF k(2,5)] by blast
qed

lemma extracted_fill:
  assumes m: "massageRow h i x = Inr m" and r: "mapRow h i (rowObj m) = Inr (i, r)"
  shows "\<forall>q. toNum h (apField (nc x (JObj []))) = Inr None
             \<and> toNum h (kpField (nc x (JObj []))) = Inr (Some q)
           \<longrightarrow> (\<exists>k. row_kp r = Some (Fin k) \<and> Some (Fin k) = clamp (round1 (Some q)) 0 9
                  \<and> (0 \<le> mathRound q \<and> mathRound q \<le> 9 \<longrightarrow> row_ap r = kpToAp (mathRound q))
                  \<and> (9 < mathRound q \<longrightarrow> row_ap r = Some 400)
                  \<and> (mathRound q < 0 \<longrightarrow> row_ap r = Some 0))"
proof (intro allI impI)
  fix q
  assume a: "toNum h (apField (nc x (JObj []))) = Inr None
             \<and> toNum h (kpField (nc x (JObj []))) = Inr (Some q)"
  from massageRow_Inr [OF m] a have mk: "row_kp m = map_option Fin (Some q)"
    and ma: "row_ap m = kpToAp (mathRound q)" by auto
  have tk: "toNum h (kpField (rowObj m)) = Inr (Some q)" using mk by (rule kpField_rowObj)
  have ta: "toNum h (apField (rowObj m)) = Inr (kpToAp (mathRound q))"
    using ma by (simp add: apField_rowObj)
  have kp: "row_kp r = clamp (round1 (Some q)) 0 9" using mapRow_fill(4) [OF r tk] .
  then obtain y where "clamp (round1 (Some q)) 0 9 = Some y" by (simp add: clamp_def round1_def)
  with clamp_range [OF this] obtain k where k: "clamp (round1 (Some q)) 0 9 = Some (Fin k)"
    by blast
  have inside: "row_ap r = kpToAp (mathRound q)" if "0 \<le> mathRound q \<and> mathRound q \<le> 9"
  proof -
    from that obtain a where "kpToAp (mathRound q) = Some a"
      using kpToAp_defined [of "mathRound q"] by auto
    then show ?thesis using mapRow_fill(3) [OF r, of a] ta by simp
  qed
  have outside: "\<exists>j. Some (Fin j) = clamp (round1 (Some q)) 0 9 \<and> row_ap r = kpToAp (mathRound j)"
    if "9 < mathRound q \<or> mathRound q < 0"
  proof -
    have "kpToAp (mathRound q) = None" using that kpToAp_defined [of "mathRound q"] by auto
    then have "toNum h (apField (rowObj m)) = Inr None" using ta by simp
    from mapRow_fill(2) [OF r this tk] show ?thesis by blast
  qed
  have hi: "row_ap r = Some 400" if "9 < mathRound q"
  proof -
    from outside that obtain j where j: "Some (Fin j) = clamp (round1 (Some q)) 0 9"
      "row_ap r = kpToAp (mathRound j)" by blast
    show ?thesis using fill_outside(1) [OF j] mathRound_above [OF that] by simp
  qed
  have lo: "row_ap r = Some 0" if "mathRound q < 0"
  proof -
    from outside that obtain j where j: "Some (Fin j) = clamp (round1 (Some q)) 0 9"
      "row_ap r = kpToAp (mathRound j)" by blast
    show ?thesis using fill_outside(2) [OF j] mathRound_below [OF that] by simp
  qed
  show "\<exists>k. row_kp r = Some (Fin k) \<and> Some (Fin k) = clamp (round1 (Some q)) 0 9
                  \<and> (0 \<le> mathRound q \<and> mathRound q \<le> 9 \<longrightarrow> row_ap r = kpToAp (mathRound q))
                  \<and> (9 < mathRound q \<longrightarrow> row_ap r = Some 400)
                  \<and> (mathRound q < 0 \<longrightarrow> row_ap r = Some 0)"
    using kp k inside hi lo by (intro exI [of _ k]) simp
qed

text \<open>
  Claim C1, as stated, fails. In the payload \<^verbatim>\<open>{data: [{kp: 12}, {kp: 3.46875}]}\<close> both
  records have no \<open>ap\<close> and a parsed \<open>kp\<close>. The first is emitted with \<open>ap = 400\<close>, where
  the table at the parsed \<open>kp\<close> rounded, 12, has no entry and the claim promises
  \<^verbatim>\<open>null\<close>. The second is emitted with \<open>kp = 3.5\<close> and \<open>ap = 15\<close>: that is the table at
  the parsed \<open>kp\<close> rounded, 3, and not at the emitted \<open>kp\<close> rounded, 4. The same record
  in the array payload \<^verbatim>\<open>[{kp: 3.46875}]\<close> is emitted with \<open>kp = 3.5\<close> and \<open>ap = 27\<close>: there
  it is the table at the emitted \<open>kp\<close> rounded, and not at the parsed one. So neither
  reading of "\<open>kp\<close> rounded to the nearest integer" holds on every payload.
\<close>

theorem ap_from_kp_counterexample:
  "normalize exampleHost wrappedPayload = Inr [kp12Row, kpRow 1 (Fin (7 / 2)) 15]
   \<and> toNum exampleHost (apField kp12Record) = Inr None
   \<and> toNum exampleHost (kpField kp12Record) = Inr (Some 12)
   \<and> row_ap kp12Row = Some 400 \<and> kpToAp (mathRound 12) = None
   \<and> toNum exampleHost (apField kpOddRecord) = Inr None
   \<and> toNum exampleHost (kpField kpOddRecord) = Inr (Some (111 / 32))
   \<and> row_kp (kpRow 1 (Fin (7 / 2)) 15) = Some (Fin (7 / 2))
   \<and> row_ap (kpRow 1 (Fin (7 / 2)) 15) = Some 15
   \<and> kpToAp (mathRound (7 / 2)) = Some 27 \<and> kpToAp (mathRound (111 / 32)) = Some 15
   \<and> normalize exampleHost (JArr [kpOddRecord]) = Inr [kpRow 0 (Fin (7 / 2)) 27]"
proof (intro conjI)
  show "normalize exampleHost wrappedPayload = Inr [kp12Row, kpRow 1 (Fin (7 / 2)) 15]"
    by code_simp
  show "normalize exampleHost (JArr [kpOddRecord]) = Inr [kpRow 0 (Fin (7 / 2)) 27]"
    by code_simp
qed code_simp+

text \<open>
  Claim C1, amended. Let \<^verbatim>\<open>normalize\<close> return and take a row of the result. Its \<open>ap\<close> is
  \<^verbatim>\<open>null\<close> only if its \<open>kp\<close> is.

  When the payload is an array, the row is the image of a record of the payload. If
  the \<open>ap\<close> of that record parses to \<^verbatim>\<open>null\<close> and its \<open>kp\<close> to \<open>q\<close>, the row has the \<open>kp\<close>
  that is \<open>q\<close> rounded to a tenth and clamped, and the \<open>ap\<close> of the table at that emitted
  \<open>kp\<close> rounded to the nearest integer, which is within 0 to 9: 400 when \<open>q > 9\<close>, 0 when
  \<open>q < 0\<close>, never \<^verbatim>\<open>null\<close>.

  When the payload is not an array, the row is the image of a record that
  \<^verbatim>\<open>extractForecast\<close> handed to \<^verbatim>\<open>massage\<close>. If the \<open>ap\<close> of that record parses to
  \<^verbatim>\<open>null\<close> and its \<open>kp\<close> to \<open>q\<close>, the row has the same \<open>kp\<close> as above, and its \<open>ap\<close> is the
  table at \<open>q\<close> itself rounded to the nearest integer when that is within 0 to 9 (the fill
  of \<^verbatim>\<open>massage\<close>, which \<^verbatim>\<open>normalize\<close> keeps), 400 when it is above 9 and 0 when it is
  below 0 (the fill of \<^verbatim>\<open>normalize\<close> from the clamped \<open>kp\<close>).

  The table is 0, 3, 7, 15, 27, 48, 80, 140, 240, 400 at 0 to 9 and \<^verbatim>\<open>null\<close> elsewhere.
\<close>

theorem ap_filled_from_kp:
  assumes "normalize h payload = Inr rows" and "r \<in> set rows"
  shows "(row_kp r = None \<or> row_ap r \<noteq> None)
       \<and> (isArray payload \<longrightarrow>
            (\<exists>i. i < length (elems payload) \<and> mapRow h i (elems payload ! i) = Inr (i, r)
               \<and> (\<forall>q. toNum h (apField (elems payload ! i)) = Inr None
                        \<and> toNum h (kpField (elems payload ! i)) = Inr (Some q)
                      \<longrightarrow> (\<exists>k. row_kp r = Some (Fin k)
                             \<and> Some (Fin k) = clamp (round1 (Some q)) 0 9
                             \<and> 0 \<le> mathRound k \<and> mathRound k \<le> 9
                             \<and> row_ap r = kpToAp (mathRound k)
                             \<and> (9 < q \<longrightarrow> row_ap r = Some 400)
                             \<and> (q < 0 \<longrightarrow> row_ap r = Some 0)))))
       \<and> (\<not> isArray payload \<longrightarrow>
            (\<exists>arr i m. dayRecords h payload = Inr (Some arr) \<and> i < length arr
               \<and> massageRow h i (arr ! i) = Inr m \<and> mapRow h i (rowObj m) = Inr (i, r)
               \<and> (\<forall>q. toNum h (apField (nc (arr ! i) (JObj []))) = Inr None
                        \<and> toNum h (kpField (nc (arr ! i) (JObj []))) = Inr (Some q)
                      \<longrightarrow> (\<exists>k. row_kp r = Some (Fin k)
                             \<and> Some (Fin k) = clamp (round1 (Some q)) 0 9
                             \<and> (0 \<le> mathRound q \<and> mathRound q \<le> 9
                                  \<longrightarrow> row_ap r = kpToAp (mathRound q))
                             \<and> (9 < mathRound q \<longrightarrow> row_ap r = Some 400)
                             \<and> (mathRound q < 0 \<longrightarrow> row_ap r = Some 0)))))
       \<and> map kpToAp [0, 1, 2, 3, 4, 5, 6, 7, 8, 9] =
           [Some 0, Some 3, Some 7, Some 15, Some 27, Some 48, Some 80, Some 140,
            Some 240, Some 400]
       \<and> (\<forall>n. n < 0 \<or> 9 < n \<longrightarrow> kpToAp n = None)"
proof -
  from normalize_mem [OF assms] obtain xs i where xs: "rowsIn h payload = Inr xs"
    and i: "i < length xs" "mapRow h i (xs ! i) = Inr (i, r)" by blast
  have nn: "row_kp r = None \<or> row_ap r \<noteq> None" using i(2) by (rule mapRow_fill(1))
  have arr: "isArray payload \<longrightarrow>
            (\<exists>i. i < length (elems payload) \<and> mapRow h i (elems payload ! i) = Inr (i, r)
               \<and> (\<forall>q. toNum h (apField (elems payload ! i)) = Inr None
                        \<and> toNum h (kpField (elems payload ! i)) = Inr (Some q)
                      \<longrightarrow> (\<exists>k. row_kp r = Some (Fin k)
                             \<and> Some (Fin k) = clamp (round1 (Some q)) 0 9
                             \<and> 0 \<le> mathRound k \<and> mathRound k \<le> 9
                             \<and> row_ap r = kpToAp (mathRound k)
                             \<and> (9 < q \<longrightarrow> row_ap r = Some 400)
                             \<and> (q < 0 \<longrightarrow> row_ap r = Some 0))))"
  proof
    assume "isArray payload"
    then have e: "xs = elems payload" using xs by (rule rowsIn_array)
    have m: "mapRow h i (elems payload ! i) = Inr (i, r)" using i(2) e by simp
    show "\<exists>i. i < length (elems payload) \<and> mapRow h i (elems payload ! i) = Inr (i, r)
               \<and> (\<forall>q. toNum h (apField (elems payload ! i)) = Inr None
                        \<and> toNum h (kpField (elems payload ! i)) = Inr (Some q)
                      \<longrightarrow> (\<exists>k. row_kp r = Some (Fin k)
                             \<and> Some (Fin k) = clamp (round1 (Some q)) 0 9
                             \<and> 0 \<le> mathRound k \<and> mathRound k \<le> 9
                             \<and> row_ap r = kpToAp (mathRound k)
                             \<and> (9 < q \<longrightarrow> row_ap r = Some 400)
                             \<and> (q < 0 \<longrightarrow> row_ap r = Some 0)))"
      using i(1) e m array_fill [OF m] by (intro exI [of _ i]) simp
  qed
  have ext: "\<not> isArray payload \<longrightarrow>
            (\<exists>arr i m. dayRecords h payload = Inr (Some arr) \<and> i < length arr
               \<and> massageRow h i (arr ! i) = Inr m \<and> mapRow h i (rowObj m) = Inr (i, r)
               \<and> (\<forall>q. toNum h (apField (nc (arr ! i) (JObj []))) = Inr None
                        \<and> toNum h (kpField (nc (arr ! i) (JObj []))) = Inr (Some q)
                      \<longrightarrow> (\<exists>k. row_kp r = Some (Fin k)
                             \<and> Some (Fin k) = clamp (round1 (Some q)) 0 9
                             \<and> (0 \<le> mathRound q \<and> mathRound q \<le> 9
                                  \<longrightarrow> row_ap r = kpToAp (mathRound q))
                             \<and> (9 < mathRound q \<longrightarrow> row_ap r = Some 400)
                             \<and> (mathRound q < 0 \<longrightarrow> row_ap r = Some 0))))"
  proof
    assume "\<not> isArray payload"
    from rowsIn_extracted [OF this xs i(1)] obtain arr m
      where a: "dayRecords h payload = Inr (Some arr)" "i < length arr"
        "massageRow h i (arr ! i) = Inr m" "xs ! i = rowObj m" by blast
    have r: "mapRow h i (rowObj m) = Inr (i, r)" using i(2) a(4) by simp
    show "\<exists>arr i m. dayRecords h payload = Inr (Some arr) \<and> i < length arr
               \<and> massageRow h i (arr ! i) = Inr m \<and> mapRow h i (rowObj m) = Inr (i, r)
               \<and> (\<forall>q. toNum h (apField (nc (arr ! i) (JObj []))) = Inr None
                        \<and> toNum h (kpField (nc (arr ! i) (JObj []))) = Inr (Some q)
                      \<longrightarrow> (\<exists>k. row_kp r = Some (Fin k)
                             \<and> Some (Fin k) = clamp (round1 (Some q)) 0 9
                             \<and> (0 \<le> mathRound q \<and> mathRound q \<le> 9
                                  \<longrightarrow> row_ap r = kpToAp (mathRound q))
                             \<and> (9 < mathRound q \<longrightarrow> row_ap r = Some 400)
                             \<and> (mathRound q < 0 \<longrightarrow> row_ap r = Some 0)))"
      using a(1,2,3) r extracted_fill [OF a(3) r]
      by (intro exI [of _ arr] exI [of _ i] exI [of _ m]) simp
  qed
  have t: "map kpToAp [0, 1, 2, 3, 4, 5, 6, 7, 8, 9] =
           [Some 0, Some 3, Some 7, Some 15, Some 27, Some 48, Some 80, Some 140,
            Some 240, Some 400]"
    by (simp add: kpToAp_table)
  have o: "\<forall>n. n < 0 \<or> 9 < n \<longrightarrow> kpToAp n = None"
    using kpToAp_defined by (metis not_le)
  show ?thesis by (intro conjI nn arr ext t o)
qed

theorem ap_filled_from_kp_witness:
  "normalize exampleHost wrappedPayload = Inr [kp12Row, kpRow 1 (Fin (7 / 2)) 15]
   \<and> kpRow 1 (Fin (7 / 2)) 15 \<in> set [kp12Row, kpRow 1 (Fin (7 / 2)) 15]
   \<and> row_kp (kpRow 1 (Fin (7 / 2)) 15) = Some (Fin (7 / 2))
   \<and> row_ap (kpRow 1 (Fin (7 / 2)) 15) \<noteq> None"
proof -
  have h1: "normalize exampleHost wrappedPayload = Inr [kp12Row, kpRow 1 (Fin (7 / 2)) 15]"
    by code_simp
  have h2: "kpRow 1 (Fin (7 / 2)) 15 \<in> set [kp12Row, kpRow 1 (Fin (7 / 2)) 15]" by simp
  have h3: "row_kp (kpRow 1 (Fin (7 / 2)) 15) = Some (Fin (7 / 2))" by (simp add: kpRow_def)
  from ap_filled_from_kp [OF h1 h2]
  have "row_kp (kpRow 1 (Fin (7 / 2)) 15) = None \<or> row_ap (kpRow 1 (Fin (7 / 2)) 15) \<noteq> None"
    by (rule conjunct1)
  with h3 have "row_ap (kpRow 1 (Fin (7 / 2)) 15) \<noteq> None" by simp
  with h1 h2 h3 show ?thesis by blast
qed

end
